theory Spec2Isabelle
  imports Complex_Main "HOL-Library.Word" "HOL-Library.Sublist" "HOL-Library.Log_Nat"
begin

unbundle bit_operations_syntax

section \<open>Data model (types.ts)\<close>

text \<open>
  The interfaces of the source become records. A JavaScript number that only ever holds
  an integer (a colour channel, a count) is an \<open>int\<close> or a \<open>nat\<close>. A number that holds a
  fraction is a double: a rational number, and every operation that computes one rounds
  its exact result to the nearest double (\<open>fl\<close> below). The fields of \<open>HSL\<close> are \<open>real\<close>,
  so that the classifier can be asked about any hue, saturation and lightness; what
  \<open>rgbToHsl\<close> stores in them are doubles.
\<close>

record RGB =
  rgb_r :: int
  rgb_g :: int
  rgb_b :: int

record HSL =
  hsl_h :: real
  hsl_s :: real
  hsl_l :: real

datatype Category = Warm | Cool | Neutral

record ColorData =
  hex :: string
  rgb :: RGB
  hsl :: HSL
  category :: Category
  population :: nat

record PaletteAnalysis =
  all :: "ColorData list"
  warm :: "ColorData list"
  cool :: "ColorData list"
  neutral :: "ColorData list"
  accents :: "ColorData list"

section \<open>JavaScript primitives used by colorAnalysis.ts\<close>

text \<open>ToInt32 on an integer: the value wrapped into the signed 32-bit range.\<close>

definition js_int32 :: "int \<Rightarrow> int" where
  "js_int32 x = signed_take_bit 31 x"

text \<open>\<open>x << n\<close>: both operands to 32 bits, the shift count taken modulo 32.\<close>

definition js_shl :: "int \<Rightarrow> nat \<Rightarrow> int" where
  "js_shl x n = js_int32 (push_bit (n mod 32) (js_int32 x))"

text \<open>\<open>x | y\<close> on integers.\<close>

definition js_or :: "int \<Rightarrow> int \<Rightarrow> int" where
  "js_or x y = js_int32 (js_int32 x OR js_int32 y)"

text \<open>
  \<open>x | 0\<close> on a number that may be fractional, or NaN (\<open>None\<close>): truncation towards
  zero, then ToInt32; NaN gives 0.
\<close>

definition js_or0 :: "real option \<Rightarrow> int" where
  "js_or0 x = (case x of None \<Rightarrow> 0
     | Some v \<Rightarrow> js_int32 (if 0 \<le> v then \<lfloor>v\<rfloor> else \<lceil>v\<rceil>))"

text \<open>
  Doubles. \<open>fl x\<close> is the IEEE 754 binary64 number nearest to the rational \<open>x\<close>, a tie
  going to the even significand: with \<open>2 ^ e \<le> \<bar>x\<bar> < 2 ^ (e + 1)\<close> the doubles around \<open>x\<close>
  are the multiples of \<open>2 ^ (e - 52)\<close>. Overflow to \<open>Infinity\<close> and the subnormal numbers
  (below \<open>2 ^ -1022\<close>) are left out: no number of this program comes near either.
  \<open>ilog2 x\<close> is that \<open>e\<close> for a positive \<open>x\<close>, found from the bit lengths of numerator and
  denominator.
\<close>

definition ilog2 :: "rat \<Rightarrow> int" where
  "ilog2 x = (let (p, q) = quotient_of x; k = bitlen p - bitlen q
              in if 2 powi k \<le> x then k else k - 1)"

definition round_even :: "rat \<Rightarrow> int" where
  "round_even x = (let f = \<lfloor>x\<rfloor>; r = x - of_int f
                   in if r < 1 / 2 then f else if 1 / 2 < r then f + 1
                      else if even f then f else f + 1)"

definition fl_pos :: "rat \<Rightarrow> rat" where
  "fl_pos x = (let u = 2 powi (ilog2 x - 52) in of_int (round_even (x / u)) * u)"

definition fl :: "rat \<Rightarrow> rat" where
  "fl x = (if x = 0 then 0 else if 0 < x then fl_pos x else - fl_pos (- x))"

text \<open>\<open>Number.prototype.toString(16)\<close> on an integer: lowercase digits, a sign if negative.\<close>

definition hex_digit :: "nat \<Rightarrow> char" where
  "hex_digit d = ''0123456789abcdef'' ! d"

fun hex_digits :: "nat \<Rightarrow> string" where
  "hex_digits n = (if n < 16 then [hex_digit n]
     else hex_digits (n div 16) @ [hex_digit (n mod 16)])"

declare hex_digits.simps [simp del]

definition toString16 :: "int \<Rightarrow> string" where
  "toString16 x = (if x < 0 then CHR ''-'' # hex_digits (nat (- x)) else hex_digits (nat x))"

text \<open>
  The value of one character as a base-16 digit, as \<open>parseInt\<close> reads it, \<open>None\<close> for
  a character that is no digit. The characters with a value are those of the class
  \<open>[a-f\d]\<close> under the \<open>i\<close> flag.
\<close>

definition hex_value :: "char \<Rightarrow> int option" where
  "hex_value c =
     (if c \<in> set ''0123456789'' then Some (of_char c - 48)
      else if c \<in> set ''abcdef'' then Some (of_char c - 87)
      else if c \<in> set ''ABCDEF'' then Some (of_char c - 55)
      else None)"

definition hex_class :: "char \<Rightarrow> bool" where
  "hex_class c = (c \<in> set ''0123456789abcdefABCDEF'')"

text \<open>
  \<open>parseInt(s, 16)\<close> on a string without leading white space, sign or \<open>0x\<close> prefix (the
  groups of the pattern below have none): the digits up to the first character that is
  no digit; NaN (\<open>None\<close>) when there is no digit at all.
\<close>

fun parse_digits :: "int \<Rightarrow> string \<Rightarrow> int" where
  "parse_digits acc [] = acc"
| "parse_digits acc (c # cs) =
     (case hex_value c of None \<Rightarrow> acc | Some v \<Rightarrow> parse_digits (16 * acc + v) cs)"

definition parseInt16 :: "string \<Rightarrow> int option" where
  "parseInt16 s = (case s of [] \<Rightarrow> None
     | c # _ \<Rightarrow> if hex_value c = None then None else Some (parse_digits 0 s))"

section \<open>Colour space converter\<close>

text \<open>\<open>'#' + ((1 << 24) + (r << 16) + (g << 8) + b).toString(16).slice(1)\<close>\<close>

definition rgbToHex :: "RGB \<Rightarrow> string" where
  "rgbToHex c = CHR ''#'' #
     drop 1 (toString16 (js_shl 1 24 + js_shl (rgb_r c) 16 + js_shl (rgb_g c) 8 + rgb_b c))"

text \<open>
  The pattern \<open>/^#?([a-f\d]{2})([a-f\d]{2})([a-f\d]{2})$/i\<close>. \<open>hex_groups\<close> is the part after
  \<open>#?\<close>, anchored at both ends: six characters of the class, returned as the three
  groups. \<open>hex_exec\<close> is the whole pattern: \<open>#?\<close> is greedy, so a leading \<open>#\<close> is consumed
  first, and given back when the rest then fails. A character of the string is a
  \<open>char\<close>; one outside ASCII is in no class of the pattern, whatever its encoding.
\<close>

definition hex_groups :: "string \<Rightarrow> (string \<times> string \<times> string) option" where
  "hex_groups t = (case t of
       [c1, c2, c3, c4, c5, c6] \<Rightarrow>
         if hex_class c1 \<and> hex_class c2 \<and> hex_class c3 \<and> hex_class c4 \<and> hex_class c5 \<and> hex_class c6
         then Some ([c1, c2], [c3, c4], [c5, c6]) else None
     | _ \<Rightarrow> None)"

definition hex_exec :: "string \<Rightarrow> (string \<times> string \<times> string) option" where
  "hex_exec s = (case s of
       c # t \<Rightarrow> if c = CHR ''#''
         then (case hex_groups t of Some m \<Rightarrow> Some m | None \<Rightarrow> hex_groups s)
         else hex_groups s
     | [] \<Rightarrow> hex_groups s)"

text \<open>
  \<open>hexToRgb\<close>: \<open>None\<close> is JavaScript's \<open>null\<close>. A channel that \<open>parseInt\<close> reads as NaN
  would not make the result null in the source; \<open>hexToRgb_groups_parse\<close> below shows
  that no group of a match reads as NaN, so that branch is never taken.
\<close>

definition hexToRgb :: "string \<Rightarrow> RGB option" where
  "hexToRgb s = (case hex_exec s of
       None \<Rightarrow> None
     | Some (g1, g2, g3) \<Rightarrow>
         (case (parseInt16 g1, parseInt16 g2, parseInt16 g3) of
            (Some r, Some g, Some b) \<Rightarrow> Some \<lparr>rgb_r = r, rgb_g = g, rgb_b = b\<rparr>
          | _ \<Rightarrow> None))"

text \<open>
  \<open>rgbToHsl\<close>, operation by operation in doubles: \<open>2 - max - min\<close> is \<open>(2 - max) - min\<close>,
  and \<open>max\<close>, \<open>min\<close> and the comparisons round nothing. The \<open>switch (max)\<close> takes the
  first case equal to \<open>max\<close>. \<open>Math.round\<close> gives the integer nearest to the double it is
  applied to, a half going upwards, as \<open>round\<close> does. A channel is an integer of less
  than 54 bits and as such a double. A quotient by 0 is \<open>Infinity\<close> or NaN in the source and 0 here;
  \<open>rgbToHsl_denominators\<close> below shows that for channels from 0 to 255 no divisor is 0.
\<close>

definition rgbToHsl :: "RGB \<Rightarrow> HSL" where
  "rgbToHsl c =
     (let r = fl (of_int (rgb_r c) / 255);
          g = fl (of_int (rgb_g c) / 255);
          b = fl (of_int (rgb_b c) / 255);
          mx = max r (max g b);
          mn = min r (min g b);
          l = fl (fl (mx + mn) / 2)
      in if mx \<noteq> mn then
           let d = fl (mx - mn);
               s = (if l > 1 / 2 then fl (d / fl (fl (2 - mx) - mn)) else fl (d / fl (mx + mn)));
               h = (if mx = r then fl (fl (fl (g - b) / d) + (if g < b then 6 else 0))
                    else if mx = g then fl (fl (fl (b - r) / d) + 2)
                    else if mx = b then fl (fl (fl (r - g) / d) + 4)
                    else 0);
               h6 = fl (h / 6)
           in \<lparr>hsl_h = of_int (round (fl (h6 * 360))), hsl_s = of_rat s, hsl_l = of_rat l\<rparr>
         else \<lparr>hsl_h = of_int (round (fl (0 * 360))), hsl_s = 0, hsl_l = of_rat l\<rparr>)"

section \<open>Classifier\<close>

definition categorizeColor :: "HSL \<Rightarrow> Category" where
  "categorizeColor x =
     (let h = hsl_h x; s = hsl_s x; l = hsl_l x
      in if s \<le> 0.18 \<or> l \<le> 0.12 \<or> l \<ge> 0.95 then Neutral
         else if (h \<ge> 0 \<and> h < 90) \<or> (h \<ge> 315 \<and> h \<le> 360) then Warm
         else Cool)"

definition isAccentColor :: "HSL \<Rightarrow> bool" where
  "isAccentColor x = (hsl_s x \<ge> 0.45 \<and> hsl_l x \<ge> 0.2 \<and> hsl_l x \<le> 0.85)"

definition colorDistanceSq :: "RGB \<Rightarrow> RGB \<Rightarrow> int" where
  "colorDistanceSq c1 c2 =
     (rgb_r c1 - rgb_r c2) ^ 2 + (rgb_g c1 - rgb_g c2) ^ 2 + (rgb_b c1 - rgb_b c2) ^ 2"

section \<open>Palette extractor\<close>

subsection \<open>The browser around \<open>extractColors\<close>\<close>

text \<open>
  \<open>extractColors\<close> reads its pixels through a canvas, which is not part of the source:
  what the canvas does with an image is a parameter of the model, given with the image.
  An image element is its natural size and, for a canvas of \<open>w\<close> by \<open>h\<close> pixels it is drawn
  on, the exception \<open>drawImage\<close> throws, if any, the exception
  \<open>getImageData(0, 0, w, h)\<close> throws, if any, and the bytes \<open>drawn w h\<close> it returns
  otherwise (a \<open>Uint8ClampedArray\<close>, four bytes for each pixel). A browser that follows
  the HTML Standard throws \<open>InvalidStateError\<close> from \<open>drawImage\<close> for a broken image and
  \<open>IndexSizeError\<close> from \<open>getImageData\<close> for a rectangle of no width or no height; the
  source tests for neither case itself.
\<close>

datatype error = NoCanvasContext | DOMException string

record Image =
  naturalWidth :: nat
  naturalHeight :: nat
  drawImage_throws :: "error option"
  getImageData_throws :: "nat \<Rightarrow> nat \<Rightarrow> error option"
  drawn :: "nat \<Rightarrow> nat \<Rightarrow> 8 word list"

definition drawImage :: "Image \<Rightarrow> error + unit" where
  "drawImage img = (case drawImage_throws img of Some e \<Rightarrow> Inl e | None \<Rightarrow> Inr ())"

definition getImageData :: "Image \<Rightarrow> nat \<Rightarrow> nat \<Rightarrow> error + 8 word list" where
  "getImageData img sw sh =
     (case getImageData_throws img sw sh of Some e \<Rightarrow> Inl e | None \<Rightarrow> Inr (drawn img sw sh))"

text \<open>
  \<open>Math.min(1, maxSize / Math.max(naturalWidth, naturalHeight))\<close>: the quotient is
  \<open>Infinity\<close> when both sizes are 0, and the minimum is then 1. Quotient and products
  are doubles, \<open>Math.floor\<close> is exact; the natural sizes are integers of less than 54
  bits and as such doubles.
\<close>

definition canvas_scale :: "Image \<Rightarrow> rat" where
  "canvas_scale img =
     (let m = max (naturalWidth img) (naturalHeight img)
      in if m = 0 then 1 else min 1 (fl (150 / of_nat m)))"

definition canvas_width :: "Image \<Rightarrow> nat" where
  "canvas_width img = nat \<lfloor>fl (of_nat (naturalWidth img) * canvas_scale img)\<rfloor>"

definition canvas_height :: "Image \<Rightarrow> nat" where
  "canvas_height img = nat \<lfloor>fl (of_nat (naturalHeight img) * canvas_scale img)\<rfloor>"

subsection \<open>Sampling and quantization\<close>

text \<open>
  An entry of \<open>colorCounts\<close>. The \<open>Map\<close> is an association list in insertion order, which
  is the order \<open>colorCounts.values()\<close> iterates in; a key occurs once.
\<close>

record Bucket =
  b_count :: nat
  b_r :: int
  b_g :: int
  b_b :: int

type_synonym ColorCounts = "(int \<times> Bucket) list"

text \<open>\<open>data[i]\<close>: \<open>undefined\<close> (\<open>None\<close>) beyond the end of the array.\<close>

definition data_at :: "8 word list \<Rightarrow> nat \<Rightarrow> nat option" where
  "data_at data i = (if i < length data then Some (unat (data ! i)) else None)"

text \<open>\<open>a < 200\<close>: false when \<open>a\<close> is \<open>undefined\<close>.\<close>

definition below200 :: "nat option \<Rightarrow> bool" where
  "below200 a = (case a of None \<Rightarrow> False | Some v \<Rightarrow> v < 200)"

text \<open>
  \<open>(v / quantize | 0) * quantize\<close> with \<open>quantize = 12\<close>; \<open>undefined / 12\<close> is NaN. The
  quotient is written exactly: a twelfth of a byte is a whole number or at least a
  twelfth away from the next one, so the double has the same integer part.
\<close>

definition quantize :: "nat option \<Rightarrow> int" where
  "quantize v = js_or0 (map_option (\<lambda>x. real x / 12) v) * 12"

text \<open>\<open>(qr << 16) | (qg << 8) | qb\<close>\<close>

definition bucket_key :: "int \<Rightarrow> int \<Rightarrow> int \<Rightarrow> int" where
  "bucket_key qr qg qb = js_or (js_or (js_shl qr 16) (js_shl qg 8)) qb"

text \<open>\<open>existing.count++\<close> on the entry stored under \<open>key\<close>.\<close>

definition increment :: "int \<Rightarrow> ColorCounts \<Rightarrow> ColorCounts" where
  "increment key m =
     map (\<lambda>(k, e). if k = key then (k, e\<lparr>b_count := b_count e + 1\<rparr>) else (k, e)) m"

text \<open>The body of the sampling loop at index \<open>i\<close>.\<close>

definition sample_pixel :: "8 word list \<Rightarrow> nat \<Rightarrow> ColorCounts \<Rightarrow> ColorCounts" where
  "sample_pixel data i colorCounts =
     (let r = data_at data i;
          g = data_at data (i + 1);
          b = data_at data (i + 2);
          a = data_at data (i + 3)
      in if below200 a then colorCounts
         else
           let qr = quantize r;
               qg = quantize g;
               qb = quantize b;
               key = bucket_key qr qg qb
           in case map_of colorCounts key of
                Some existing \<Rightarrow> increment key colorCounts
              | None \<Rightarrow> colorCounts @ [(key, \<lparr>b_count = 1, b_r = qr, b_g = qg, b_b = qb\<rparr>)])"

text \<open>
  \<open>for (let i = 0; i < data.length; i += 4 * sampleRate)\<close>. With \<open>sampleRate = 0\<close> and a
  non-empty array the loop never ends: the result is \<open>None\<close>. \<open>sampleRate\<close> is a
  natural number here; the source would also accept a fraction or a negative number.
\<close>

partial_function (option) sample_loop ::
  "8 word list \<Rightarrow> nat \<Rightarrow> nat \<Rightarrow> ColorCounts \<Rightarrow> ColorCounts option" where
  "sample_loop data sampleRate i colorCounts =
     (if i < length data
      then sample_loop data sampleRate (i + 4 * sampleRate) (sample_pixel data i colorCounts)
      else Some colorCounts)"

declare sample_loop.simps [code]

subsection \<open>Ranking\<close>

text \<open>
  \<open>Array.prototype.sort\<close> with a comparator. ECMAScript requires the sort to be stable;
  the model is insertion sort, which places an element before the first one it does not
  compare greater than.
\<close>

fun insert_sorted :: "('a \<Rightarrow> 'a \<Rightarrow> int) \<Rightarrow> 'a \<Rightarrow> 'a list \<Rightarrow> 'a list" where
  "insert_sorted cmp x [] = [x]"
| "insert_sorted cmp x (y # ys) =
     (if cmp x y \<le> 0 then x # y # ys else y # insert_sorted cmp x ys)"

definition js_sort :: "('a \<Rightarrow> 'a \<Rightarrow> int) \<Rightarrow> 'a list \<Rightarrow> 'a list" where
  "js_sort cmp xs = foldr (insert_sorted cmp) xs []"

text \<open>\<open>(a, b) => b.count - a.count\<close>\<close>

definition by_count :: "Bucket \<Rightarrow> Bucket \<Rightarrow> int" where
  "by_count a b = int (b_count b) - int (b_count a)"

subsection \<open>Distinctness filter\<close>

definition bucket_rgb :: "Bucket \<Rightarrow> RGB" where
  "bucket_rgb c = \<lparr>rgb_r = b_r c, rgb_g = b_g c, rgb_b = b_b c\<rparr>"

text \<open>
  The loop over \<open>sortedColors\<close>, \<open>distinctColors\<close> as the accumulator; \<open>break\<close> leaves
  the loop with the accumulator as it is. \<open>minDistanceSq\<close> is \<open>50 * 50\<close>.
\<close>

fun distinct_loop :: "nat \<Rightarrow> Bucket list \<Rightarrow> Bucket list \<Rightarrow> Bucket list" where
  "distinct_loop maxColors distinctColors [] = distinctColors"
| "distinct_loop maxColors distinctColors (color # rest) =
     (if length distinctColors \<ge> maxColors then distinctColors
      else
        let isDistinct =
          list_all (\<lambda>existing. colorDistanceSq (bucket_rgb existing) (bucket_rgb color) > 50 * 50)
            distinctColors
        in distinct_loop maxColors
             (if isDistinct then distinctColors @ [color] else distinctColors) rest)"

subsection \<open>Assembly\<close>

definition toColorData :: "Bucket \<Rightarrow> ColorData" where
  "toColorData c =
     (let rgb' = bucket_rgb c;
          hsl' = rgbToHsl rgb'
      in \<lparr>hex = rgbToHex rgb', rgb = rgb', hsl = hsl',
          category = categorizeColor hsl', population = b_count c\<rparr>)"

text \<open>Lines 92 to 160 of the source: from the pixel bytes to the resolved value.\<close>

definition analyse :: "8 word list \<Rightarrow> nat \<Rightarrow> nat \<Rightarrow> PaletteAnalysis option" where
  "analyse data sampleRate maxColors =
     (case sample_loop data sampleRate 0 [] of
        None \<Rightarrow> None
      | Some colorCounts \<Rightarrow>
          let sortedColors = js_sort by_count (map snd colorCounts);
              distinctColors = distinct_loop maxColors [] sortedColors;
              all' = map toColorData distinctColors
          in Some \<lparr>all = all',
                   warm = filter (\<lambda>c. category c = Warm) all',
                   cool = filter (\<lambda>c. category c = Cool) all',
                   neutral = filter (\<lambda>c. category c = Neutral) all',
                   accents = filter (\<lambda>c. isAccentColor (hsl c)) all'\<rparr>)"

text \<open>
  \<open>extractColors\<close>. \<open>ctx\<close> tells whether \<open>getContext('2d')\<close> returned a context. The
  promise is rejected with the exception thrown inside \<open>try\<close> (\<open>Some (Inl e)\<close>),
  resolved with the palette (\<open>Some (Inr p)\<close>), or never settled because the sampling loop
  does not end (\<open>None\<close>).
\<close>

definition extractColors ::
  "bool \<Rightarrow> Image \<Rightarrow> nat \<Rightarrow> nat \<Rightarrow> (error + PaletteAnalysis) option" where
  "extractColors ctx imageElement sampleRate maxColors =
     (if \<not> ctx then Some (Inl NoCanvasContext)
      else case drawImage imageElement of
          Inl e \<Rightarrow> Some (Inl e)
        | Inr _ \<Rightarrow>
            (case getImageData imageElement (canvas_width imageElement) (canvas_height imageElement) of
               Inl e \<Rightarrow> Some (Inl e)
             | Inr data \<Rightarrow> map_option Inr (analyse data sampleRate maxColors)))"

subsection \<open>The samples of a run, for stating properties of the result\<close>

text \<open>The indices the sampling loop visits in an array of \<open>n\<close> bytes, in order.\<close>

definition sample_positions :: "nat \<Rightarrow> nat \<Rightarrow> nat list" where
  "sample_positions n sampleRate =
     map (\<lambda>k. k * (4 * sampleRate)) [0 ..< (n + 4 * sampleRate - 1) div (4 * sampleRate)]"

text \<open>The key the sample at index \<open>i\<close> is counted under, \<open>None\<close> when it is skipped.\<close>

definition sample_key :: "8 word list \<Rightarrow> nat \<Rightarrow> int option" where
  "sample_key data i =
     (if below200 (data_at data (i + 3)) then None
      else Some (bucket_key (quantize (data_at data i)) (quantize (data_at data (i + 1)))
                   (quantize (data_at data (i + 2)))))"

definition sampled_keys :: "8 word list \<Rightarrow> nat \<Rightarrow> int list" where
  "sampled_keys data sampleRate =
     List.map_filter (sample_key data) (sample_positions (length data) sampleRate)"

text \<open>The distinct elements of a list in the order of their first occurrence.\<close>

definition first_seen :: "'a list \<Rightarrow> 'a list" where
  "first_seen ks = foldl (\<lambda>acc k. if k \<in> set acc then acc else acc @ [k]) [] ks"

definition color_key :: "ColorData \<Rightarrow> int" where
  "color_key c = bucket_key (rgb_r (rgb c)) (rgb_g (rgb c)) (rgb_b (rgb c))"

text \<open>The raster of the 2 by 2 scenario, and an image element showing it unscaled.\<close>

definition scenario_data :: "8 word list" where
  "scenario_data = [255, 0, 0, 255,  250, 5, 5, 255,  0, 0, 255, 255,  0, 255, 0, 128]"

definition scenario_image :: Image where
  "scenario_image = \<lparr>naturalWidth = 2, naturalHeight = 2, drawImage_throws = None,
     getImageData_throws = (\<lambda>w h. None), drawn = (\<lambda>w h. scenario_data)\<rparr>"

text \<open>
  What the scenario resolves with. The lightness is the double \<open>0.49411764705882355\<close>.
\<close>

definition scenario_red :: ColorData where
  "scenario_red = \<lparr>hex = ''#fc0000'', rgb = \<lparr>rgb_r = 252, rgb_g = 0, rgb_b = 0\<rparr>,
     hsl = \<lparr>hsl_h = 0, hsl_s = 1, hsl_l = 278163506396413 / 562949953421312\<rparr>,
     category = Warm, population = 1\<rparr>"

definition scenario_blue :: ColorData where
  "scenario_blue = \<lparr>hex = ''#0000fc'', rgb = \<lparr>rgb_r = 0, rgb_g = 0, rgb_b = 252\<rparr>,
     hsl = \<lparr>hsl_h = 240, hsl_s = 1, hsl_l = 278163506396413 / 562949953421312\<rparr>,
     category = Cool, population = 1\<rparr>"

definition scenario_palette :: PaletteAnalysis where
  "scenario_palette = \<lparr>all = [scenario_red, scenario_blue], warm = [scenario_red],
     cool = [scenario_blue], neutral = [], accents = [scenario_red, scenario_blue]\<rparr>"




subsection \<open>The invariant of \<open>colorCounts\<close>\<close>

text \<open>
  A channel of a bucket is a multiple of 12 between 0 and 252, and an entry is stored
  under the key of its own channels.
\<close>

definition quantized_channel :: "int \<Rightarrow> bool" where
  "quantized_channel v = (0 \<le> v \<and> v \<le> 252 \<and> 12 dvd v)"

definition bucket_ok :: "int \<times> Bucket \<Rightarrow> bool" where
  "bucket_ok p = (fst p = bucket_key (b_r (snd p)) (b_g (snd p)) (b_b (snd p))
     \<and> quantized_channel (b_r (snd p)) \<and> quantized_channel (b_g (snd p))
     \<and> quantized_channel (b_b (snd p)))"

section \<open>Doubles\<close>

lemma ilog2_bounds:
  assumes "0 < x"
  shows "2 powi (ilog2 x) \<le> x" and "x < 2 powi (ilog2 x + 1)"
proof -
  obtain p q where pq: "quotient_of x = (p, q)" by (cases "quotient_of x")
  have q: "0 < q" using pq by (rule quotient_of_denom_pos)
  have x: "x = of_int p / of_int q" using pq by (rule quotient_of_div)
  have p: "0 < p"
  proof (rule ccontr)
    assume "\<not> 0 < p"
    then have "of_int p / (of_int q :: rat) \<le> 0" using q by (simp add: divide_le_0_iff)
    with x assms show False by simp
  qed
  define bp bq where "bp = bitlen p" and "bq = bitlen q"
  have b1: "1 \<le> bp" "1 \<le> bq"
    using p q bitlen_eq_zero_iff [of p] bitlen_eq_zero_iff [of q] bitlen_nonneg [of p]
      bitlen_nonneg [of q] by (auto simp: bp_def bq_def)
  have ip: "2 ^ nat (bp - 1) \<le> p" "p < 2 ^ nat bp" and iq: "2 ^ nat (bq - 1) \<le> q" "q < 2 ^ nat bq"
    using bitlen_bounds [OF p] bitlen_bounds [OF q] by (simp_all add: bp_def bq_def)
  have rp: "(2::rat) powi (bp - 1) \<le> of_int p" "(of_int p :: rat) < 2 powi bp"
  proof -
    have "(of_int (2 ^ nat (bp - 1)) :: rat) \<le> of_int p" using ip(1) by (simp only: of_int_le_iff)
    then show "(2::rat) powi (bp - 1) \<le> of_int p" using b1 by (simp add: power_int_nonneg_exp)
    have "(of_int p :: rat) < of_int (2 ^ nat bp)" using ip(2) by (simp only: of_int_less_iff)
    then show "(of_int p :: rat) < 2 powi bp" using b1 by (simp add: power_int_nonneg_exp)
  qed
  have rq: "(2::rat) powi (bq - 1) \<le> of_int q" "(of_int q :: rat) < 2 powi bq"
  proof -
    have "(of_int (2 ^ nat (bq - 1)) :: rat) \<le> of_int q" using iq(1) by (simp only: of_int_le_iff)
    then show "(2::rat) powi (bq - 1) \<le> of_int q" using b1 by (simp add: power_int_nonneg_exp)
    have "(of_int q :: rat) < of_int (2 ^ nat bq)" using iq(2) by (simp only: of_int_less_iff)
    then show "(of_int q :: rat) < 2 powi bq" using b1 by (simp add: power_int_nonneg_exp)
  qed
  have up: "x < 2 powi (bp - bq + 1)"
  proof -
    have "of_int p / of_int q < (2::rat) powi bp / 2 powi (bq - 1)"
      using p q rp rq by (intro frac_less) simp_all
    also have "\<dots> = 2 powi (bp - (bq - 1))" by (simp add: power_int_diff)
    finally show ?thesis by (simp add: x algebra_simps)
  qed
  have lo: "2 powi (bp - bq - 1) < x"
  proof -
    have "(2::rat) powi (bp - 1) / 2 powi bq < of_int p / of_int q"
      using p q rp rq by (intro frac_less2) simp_all
    moreover have "(2::rat) powi (bp - 1) / 2 powi bq = 2 powi (bp - 1 - bq)"
      by (simp add: power_int_diff)
    ultimately show ?thesis by (simp add: x algebra_simps)
  qed
  have i: "ilog2 x = (if 2 powi (bp - bq) \<le> x then bp - bq else bp - bq - 1)"
    by (simp add: ilog2_def pq bp_def bq_def)
  show "2 powi (ilog2 x) \<le> x" using lo by (simp add: i)
  show "x < 2 powi (ilog2 x + 1)" using up by (auto simp: i)
qed

lemma round_even_bounds: "\<lfloor>x\<rfloor> \<le> round_even x" "round_even x \<le> \<lfloor>x\<rfloor> + 1"
  by (simp_all add: round_even_def Let_def)

lemma round_even_of_int [simp]: "round_even (of_int n) = n"
  by (simp add: round_even_def)

lemma round_even_mono:
  assumes "x \<le> y"
  shows "round_even x \<le> round_even y"
proof (cases "\<lfloor>x\<rfloor> = \<lfloor>y\<rfloor>")
  case True
  have "x - of_int \<lfloor>y\<rfloor> \<le> y - of_int \<lfloor>y\<rfloor>" using assms by simp
  then show ?thesis by (auto simp: round_even_def Let_def True)
next
  case False
  then have "\<lfloor>x\<rfloor> < \<lfloor>y\<rfloor>" using floor_mono [OF assms] by simp
  then have "round_even x \<le> \<lfloor>y\<rfloor>" using round_even_bounds(2) [of x] by simp
  also have "\<dots> \<le> round_even y" by (rule round_even_bounds)
  finally show ?thesis .
qed

lemma fl_pos_bounds:
  assumes "0 < x"
  shows "2 powi (ilog2 x) \<le> fl_pos x" and "fl_pos x \<le> 2 powi (ilog2 x + 1)"
proof -
  define e where "e = ilog2 x"
  define u :: rat where "u = 2 powi (e - 52)"
  have u: "0 < u" by (simp add: u_def)
  have lo: "of_int (2 ^ 52) * u = 2 powi e"
    by (simp add: u_def power_int_diff)
  have hi: "of_int (2 ^ 53) * u = 2 powi (e + 1)"
    by (simp add: u_def power_int_diff power_int_add)
  have "of_int (2 ^ 52) \<le> x / u"
    using ilog2_bounds(1) [OF assms] u lo by (simp add: e_def [symmetric] field_simps)
  from round_even_mono [OF this] have a: "2 ^ 52 \<le> round_even (x / u)"
    by (simp only: round_even_of_int)
  have "x / u \<le> of_int (2 ^ 53)"
    using ilog2_bounds(2) [OF assms] u hi by (simp add: e_def [symmetric] field_simps)
  from round_even_mono [OF this] have b: "round_even (x / u) \<le> 2 ^ 53"
    by (simp only: round_even_of_int)
  have f: "fl_pos x = of_int (round_even (x / u)) * u"
    by (simp add: fl_pos_def u_def e_def Let_def)
  have "of_int (2 ^ 52) * u \<le> of_int (round_even (x / u)) * u"
    using a u by (intro mult_right_mono) (simp_all only: of_int_le_iff less_imp_le)
  then show "2 powi (ilog2 x) \<le> fl_pos x" by (simp only: f lo e_def)
  have "of_int (round_even (x / u)) * u \<le> of_int (2 ^ 53) * u"
    using b u by (intro mult_right_mono) (simp_all only: of_int_le_iff less_imp_le)
  then show "fl_pos x \<le> 2 powi (ilog2 x + 1)" by (simp only: f hi e_def)
qed

lemma fl_pos_positive: "0 < x \<Longrightarrow> 0 < fl_pos x"
proof -
  assume "0 < x"
  have "(0::rat) < 2 powi (ilog2 x)" by simp
  also have "\<dots> \<le> fl_pos x" using \<open>0 < x\<close> by (rule fl_pos_bounds)
  finally show ?thesis .
qed

lemma fl_pos_mono:
  assumes "0 < x" "x \<le> y"
  shows "fl_pos x \<le> fl_pos y"
proof -
  have y: "0 < y" using assms by simp
  have "(2::rat) powi (ilog2 x) < 2 powi (ilog2 y + 1)"
    using ilog2_bounds(1) [OF assms(1)] ilog2_bounds(2) [OF y] assms(2) by simp
  then have le: "ilog2 x \<le> ilog2 y"
    using power_int_increasing [of "ilog2 y + 1" "ilog2 x" "2::rat"]
    by (cases "ilog2 x \<le> ilog2 y") auto
  show ?thesis
  proof (cases "ilog2 x = ilog2 y")
    case True
    have "x / 2 powi (ilog2 y - 52) \<le> y / 2 powi (ilog2 y - 52)"
      using assms(2) by (simp add: divide_right_mono)
    from round_even_mono [OF this] show ?thesis
      by (simp add: fl_pos_def True mult_right_mono Let_def)
  next
    case False
    with le have "ilog2 x + 1 \<le> ilog2 y" by simp
    then have "(2::rat) powi (ilog2 x + 1) \<le> 2 powi (ilog2 y)"
      by (intro power_int_increasing) simp_all
    with fl_pos_bounds(2) [OF assms(1)] fl_pos_bounds(1) [OF y] show ?thesis by simp
  qed
qed

lemma fl_0 [simp]: "fl 0 = 0"
  by (simp add: fl_def)

lemma fl_minus: "fl (- x) = - fl x"
  by (simp add: fl_def)

lemma fl_positive: "0 < x \<Longrightarrow> 0 < fl x"
  by (simp add: fl_def fl_pos_positive)

lemma fl_negative: "x < 0 \<Longrightarrow> fl x < 0"
  by (simp add: fl_def fl_pos_positive)

lemma fl_mono:
  assumes "x \<le> y"
  shows "fl x \<le> fl y"
proof -
  consider "0 < x" | "x \<le> 0" "0 \<le> y" | "y < 0" using assms by linarith
  then show ?thesis
  proof cases
    case 1
    then show ?thesis using assms by (simp add: fl_def fl_pos_mono)
  next
    case 2
    have "fl x \<le> 0" using 2(1) fl_negative [of x] by (cases "x = 0") auto
    moreover have "0 \<le> fl y" using 2(2) fl_positive [of y] by (cases "y = 0") auto
    ultimately show ?thesis by simp
  next
    case 3
    then have "fl_pos (- y) \<le> fl_pos (- x)" using assms by (intro fl_pos_mono) simp_all
    then show ?thesis using 3 assms by (simp add: fl_def)
  qed
qed

lemma fl_consts: "fl 1 = 1" "fl 2 = 2" "fl 3 = 3" "fl 5 = 5" "fl 6 = 6" "fl 360 = 360"
  by code_simp+

section \<open>Hex strings\<close>

lemma js_int32_id: "- 2147483648 \<le> x \<Longrightarrow> x < 2147483648 \<Longrightarrow> js_int32 x = x"
  by (simp add: js_int32_def signed_take_bit_int_eq_self_iff)

lemma js_shl_16: "0 \<le> x \<Longrightarrow> x < 256 \<Longrightarrow> js_shl x 16 = x * 65536"
  by (simp add: js_shl_def js_int32_id push_bit_eq_mult)

lemma js_shl_8: "0 \<le> x \<Longrightarrow> x < 256 \<Longrightarrow> js_shl x 8 = x * 256"
  by (simp add: js_shl_def js_int32_id push_bit_eq_mult)

lemma hex_digits_small: "n < 16 \<Longrightarrow> hex_digits n = [hex_digit n]"
  by (simp add: hex_digits.simps)

lemma hex_digits_step:
  "0 < m \<Longrightarrow> d < 16 \<Longrightarrow> hex_digits (16 * m + d) = hex_digits m @ [hex_digit d]"
  by (subst hex_digits.simps) simp

lemma hex_digit_cases:
  assumes "k < 16"
  shows "hex_class (hex_digit k)" and "hex_value (hex_digit k) = Some (int k)"
    and "hex_digit k \<in> set ''0123456789abcdef''"
proof -
  have "k = 0 \<or> k = 1 \<or> k = 2 \<or> k = 3 \<or> k = 4 \<or> k = 5 \<or> k = 6 \<or> k = 7 \<or> k = 8 \<or> k = 9
    \<or> k = 10 \<or> k = 11 \<or> k = 12 \<or> k = 13 \<or> k = 14 \<or> k = 15"
    using assms by arith
  then have "hex_class (hex_digit k) \<and> hex_value (hex_digit k) = Some (int k)
    \<and> hex_digit k \<in> set ''0123456789abcdef''"
    by (elim disjE) (simp_all add: hex_digit_def hex_class_def hex_value_def)
  then show "hex_class (hex_digit k)" and "hex_value (hex_digit k) = Some (int k)"
    and "hex_digit k \<in> set ''0123456789abcdef''"
    by simp_all
qed

lemma hex_digits_rgb:
  fixes r g b :: nat
  assumes "r < 256" "g < 256" "b < 256"
  shows "hex_digits (16777216 + r * 65536 + g * 256 + b) =
    [hex_digit 1, hex_digit (r div 16), hex_digit (r mod 16), hex_digit (g div 16),
     hex_digit (g mod 16), hex_digit (b div 16), hex_digit (b mod 16)]"
proof -
  define m1 where "m1 = 16 * 1 + r div 16"
  define m2 where "m2 = 16 * m1 + r mod 16"
  define m3 where "m3 = 16 * m2 + g div 16"
  define m4 where "m4 = 16 * m3 + g mod 16"
  define m5 where "m5 = 16 * m4 + b div 16"
  define m6 where "m6 = 16 * m5 + b mod 16"
  have lt: "r div 16 < 16" "g div 16 < 16" "b div 16 < 16"
    using assms by (simp_all add: less_mult_imp_div_less)
  have pos: "0 < m1" "0 < m2" "0 < m3" "0 < m4" "0 < m5"
    by (simp_all add: m1_def m2_def m3_def m4_def m5_def)
  have "16777216 + r * 65536 + g * 256 + b =
      16777216 + (16 * (r div 16) + r mod 16) * 65536 + (16 * (g div 16) + g mod 16) * 256
        + (16 * (b div 16) + b mod 16)"
    by simp
  also have "\<dots> = m6"
    by (simp add: m1_def m2_def m3_def m4_def m5_def m6_def)
  finally have "hex_digits (16777216 + r * 65536 + g * 256 + b) = hex_digits m6"
    by (rule arg_cong)
  also have "\<dots> = hex_digits m5 @ [hex_digit (b mod 16)]"
    unfolding m6_def using pos by (simp only: hex_digits_step mod_less_divisor zero_less_numeral)
  also have "hex_digits m5 = hex_digits m4 @ [hex_digit (b div 16)]"
    unfolding m5_def using pos lt by (simp only: hex_digits_step)
  also have "hex_digits m4 = hex_digits m3 @ [hex_digit (g mod 16)]"
    unfolding m4_def using pos by (simp only: hex_digits_step mod_less_divisor zero_less_numeral)
  also have "hex_digits m3 = hex_digits m2 @ [hex_digit (g div 16)]"
    unfolding m3_def using pos lt by (simp only: hex_digits_step)
  also have "hex_digits m2 = hex_digits m1 @ [hex_digit (r mod 16)]"
    unfolding m2_def using pos by (simp only: hex_digits_step mod_less_divisor zero_less_numeral)
  also have "hex_digits m1 = hex_digits 1 @ [hex_digit (r div 16)]"
    unfolding m1_def using lt by (simp only: hex_digits_step zero_less_one)
  also have "hex_digits 1 = [hex_digit 1]"
    by (simp add: hex_digits_small)
  finally show ?thesis by simp
qed

lemma parseInt16_pair:
  "a < 16 \<Longrightarrow> b < 16 \<Longrightarrow> parseInt16 [hex_digit a, hex_digit b] = Some (16 * int a + int b)"
  by (simp add: parseInt16_def hex_digit_cases)

lemma rgbToHex_digits:
  assumes "0 \<le> r" "r \<le> 255" "0 \<le> g" "g \<le> 255" "0 \<le> b" "b \<le> 255"
  shows "rgbToHex \<lparr>rgb_r = r, rgb_g = g, rgb_b = b\<rparr> =
    [CHR ''#'', hex_digit (nat r div 16), hex_digit (nat r mod 16), hex_digit (nat g div 16),
     hex_digit (nat g mod 16), hex_digit (nat b div 16), hex_digit (nat b mod 16)]"
proof -
  have s: "js_shl 1 24 = 16777216"
    by (simp add: js_shl_def js_int32_id push_bit_eq_mult)
  have n: "nat (16777216 + r * 65536 + g * 256 + b) =
      16777216 + nat r * 65536 + nat g * 256 + nat b"
    using assms by (simp add: nat_add_distrib nat_mult_distrib)
  have "toString16 (js_shl 1 24 + js_shl r 16 + js_shl g 8 + b) =
      hex_digits (16777216 + nat r * 65536 + nat g * 256 + nat b)"
    using assms by (simp add: s js_shl_16 js_shl_8 toString16_def n)
  then show ?thesis
    using assms by (simp add: rgbToHex_def hex_digits_rgb)
qed

lemma hexToRgb_rgbToHex:
  assumes "0 \<le> r" "r \<le> 255" "0 \<le> g" "g \<le> 255" "0 \<le> b" "b \<le> 255"
  shows "hexToRgb (rgbToHex \<lparr>rgb_r = r, rgb_g = g, rgb_b = b\<rparr>) =
    Some \<lparr>rgb_r = r, rgb_g = g, rgb_b = b\<rparr>"
proof -
  have lt: "nat r div 16 < 16" "nat r mod 16 < 16" "nat g div 16 < 16" "nat g mod 16 < 16"
    "nat b div 16 < 16" "nat b mod 16 < 16"
    using assms by (simp_all add: less_mult_imp_div_less)
  have recomb: "16 * int (nat r div 16) + int (nat r mod 16) = r"
    "16 * int (nat g div 16) + int (nat g mod 16) = g"
    "16 * int (nat b div 16) + int (nat b mod 16) = b"
    using assms by (simp_all add: zdiv_int zmod_int)
  show ?thesis
    using lt by (simp add: rgbToHex_digits assms hexToRgb_def hex_exec_def hex_groups_def
        hex_digit_cases parseInt16_pair recomb)
qed

lemma hex_class_value: "hex_class c \<Longrightarrow> \<exists>v. hex_value c = Some v"
  by (auto simp: hex_class_def hex_value_def)

lemma parseInt16_class_pair:
  "hex_class c1 \<Longrightarrow> hex_class c2 \<Longrightarrow> \<exists>v. parseInt16 [c1, c2] = Some v"
  using hex_class_value [of c1] hex_class_value [of c2]
  by (auto simp: parseInt16_def)

lemma hexToRgb_groups_parse:
  "hex_exec s = Some (g1, g2, g3) \<Longrightarrow>
     \<exists>r g b. parseInt16 g1 = Some r \<and> parseInt16 g2 = Some g \<and> parseInt16 g3 = Some b"
  by (auto simp: hex_exec_def hex_groups_def parseInt16_class_pair
      split: list.splits if_splits option.splits)

lemma hex_groups_Some_iff:
  "(hex_groups t \<noteq> None) = (length t = 6 \<and> list_all hex_class t)"
proof
  assume "hex_groups t \<noteq> None"
  then show "length t = 6 \<and> list_all hex_class t"
    by (auto simp: hex_groups_def split: list.splits if_splits)
next
  assume a: "length t = 6 \<and> list_all hex_class t"
  then obtain c1 c2 c3 c4 c5 c6 where "t = [c1, c2, c3, c4, c5, c6]"
    by (auto simp: eval_nat_numeral length_Suc_conv)
  with a show "hex_groups t \<noteq> None"
    by (simp add: hex_groups_def)
qed

lemma hex_exec_Some_iff:
  "(hex_exec s \<noteq> None) =
     (\<exists>t. (s = t \<or> s = CHR ''#'' # t) \<and> length t = 6 \<and> list_all hex_class t)"
proof (cases s)
  case Nil
  then show ?thesis by (simp add: hex_exec_def hex_groups_def)
next
  case (Cons c t')
  show ?thesis
  proof (cases "c = CHR ''#''")
    case True
    have "(hex_exec s \<noteq> None) = (hex_groups t' \<noteq> None \<or> hex_groups s \<noteq> None)"
      using Cons True by (cases "hex_groups t'") (simp_all add: hex_exec_def)
    moreover have "\<not> hex_class CHR ''#''"
      by (simp add: hex_class_def)
    ultimately show ?thesis
      using Cons True by (auto simp del: not_None_eq simp add: hex_groups_Some_iff)
  next
    case False
    have "(hex_exec s \<noteq> None) = (hex_groups s \<noteq> None)"
      using Cons False by (simp add: hex_exec_def)
    then show ?thesis
      using Cons False by (auto simp del: not_None_eq simp add: hex_groups_Some_iff)
  qed
qed

lemma hexToRgb_Some_iff: "(hexToRgb s \<noteq> None) = (hex_exec s \<noteq> None)"
proof (cases "hex_exec s")
  case None
  then show ?thesis by (simp add: hexToRgb_def)
next
  case (Some m)
  obtain g1 g2 g3 where m: "m = (g1, g2, g3)" by (cases m) auto
  from hexToRgb_groups_parse [of s g1 g2 g3] Some m
  obtain r g b where "parseInt16 g1 = Some r" "parseInt16 g2 = Some g" "parseInt16 g3 = Some b"
    by auto
  then show ?thesis using Some m by (simp add: hexToRgb_def)
qed


section \<open>Ranges of \<open>rgbToHsl\<close>\<close>

lemma fl_le: "x \<le> c \<Longrightarrow> fl c = c \<Longrightarrow> fl x \<le> c"
  using fl_mono [of x c] by simp

lemma fl_ge: "c \<le> x \<Longrightarrow> fl c = c \<Longrightarrow> c \<le> fl x"
  using fl_mono [of c x] by simp

lemma fl_nonneg: "0 \<le> x \<Longrightarrow> 0 \<le> fl x"
  using fl_mono [of 0 x] by simp

lemma fl_unit: "0 \<le> x \<Longrightarrow> x \<le> 1 \<Longrightarrow> 0 \<le> fl x \<and> fl x \<le> 1"
  by (simp add: fl_nonneg fl_le fl_consts)

lemma fl_abs_unit:
  assumes "- 1 \<le> x" "x \<le> 1"
  shows "- 1 \<le> fl x" "fl x \<le> 1"
proof -
  have "fl (- 1) = - 1" by (simp add: fl_minus fl_consts)
  then show "- 1 \<le> fl x" using assms(1) by (rule fl_ge [rotated])
  show "fl x \<le> 1" using assms(2) by (rule fl_le) (rule fl_consts)
qed

lemma channel_unit:
  assumes "0 \<le> r" "r \<le> 255"
  shows "0 \<le> fl (of_int r / 255)" "fl (of_int r / 255) \<le> 1"
proof -
  have "(0::rat) \<le> of_int r / 255" "(of_int r :: rat) / 255 \<le> 1" using assms by simp_all
  then show "0 \<le> fl (of_int r / 255)" "fl (of_int r / 255) \<le> 1"
    using fl_unit by blast+
qed

lemma ratio_unit:
  fixes x d :: rat
  assumes "0 < d" "- d \<le> x" "x \<le> d"
  shows "- 1 \<le> fl (x / d)" "fl (x / d) \<le> 1"
proof -
  have "- 1 \<le> x / d" "x / d \<le> 1" using assms by (simp_all add: field_simps)
  then show "- 1 \<le> fl (x / d)" "fl (x / d) \<le> 1" by (rule fl_abs_unit)+
qed

lemma fl_diff_bounds:
  fixes x w :: rat
  assumes "- w \<le> x" "x \<le> w"
  shows "- fl w \<le> fl x" "fl x \<le> fl w"
proof -
  show "fl x \<le> fl w" using assms(2) by (rule fl_mono)
  have "fl (- w) \<le> fl x" using assms(1) by (rule fl_mono)
  then show "- fl w \<le> fl x" by (simp add: fl_minus)
qed

lemma hue_sector:
  fixes r g b :: rat
  assumes mx: "mx = max r (max g b)" and mn: "mn = min r (min g b)" and ne: "mx \<noteq> mn"
  defines "d \<equiv> fl (mx - mn)"
  defines "h \<equiv> (if mx = r then fl (fl (fl (g - b) / d) + (if g < b then 6 else 0))
                    else if mx = g then fl (fl (fl (b - r) / d) + 2)
                    else if mx = b then fl (fl (fl (r - g) / d) + 4)
                    else 0)"
  shows "0 \<le> h \<and> h \<le> 6"
proof -
  have "mn \<le> mx" unfolding mx mn by (simp add: min_le_iff_disj le_max_iff_disj)
  then have "0 < mx - mn" using ne by simp
  then have d: "0 < d" unfolding d_def by (rule fl_positive)
  have gb: "- (mx - mn) \<le> g - b" "g - b \<le> mx - mn" and br: "- (mx - mn) \<le> b - r" "b - r \<le> mx - mn"
    and rg: "- (mx - mn) \<le> r - g" "r - g \<le> mx - mn"
    using mx mn by auto
  note q1 = ratio_unit [OF d fl_diff_bounds [OF gb, folded d_def]]
    and q2 = ratio_unit [OF d fl_diff_bounds [OF br, folded d_def]]
    and q3 = ratio_unit [OF d fl_diff_bounds [OF rg, folded d_def]]
  show ?thesis
  proof (cases "mx = r")
    case True
    show ?thesis
    proof (cases "g < b")
      case lt: True
      then have "fl (g - b) < 0" by (intro fl_negative) simp
      then have "fl (g - b) / d < 0" using d by (simp add: field_simps)
      then have "fl (fl (g - b) / d) < 0" by (rule fl_negative)
      with q1 have "5 \<le> fl (fl (g - b) / d) + 6" "fl (fl (g - b) / d) + 6 \<le> 6" by simp_all
      then have "5 \<le> fl (fl (fl (g - b) / d) + 6)" "fl (fl (fl (g - b) / d) + 6) \<le> 6"
        by (simp_all add: fl_ge fl_le fl_consts)
      then show ?thesis using True lt by (simp add: h_def)
    next
      case ge: False
      then have "0 \<le> fl (g - b)" by (intro fl_nonneg) simp
      then have "0 \<le> fl (g - b) / d" using d by simp
      then have "0 \<le> fl (fl (g - b) / d)" by (rule fl_nonneg)
      with q1 have "0 \<le> fl (fl (fl (g - b) / d))" "fl (fl (fl (g - b) / d)) \<le> 1"
        using fl_unit by blast+
      then show ?thesis using True ge by (simp add: h_def)
    qed
  next
    case False
    have "1 \<le> fl (fl (b - r) / d) + 2" "fl (fl (b - r) / d) + 2 \<le> 3" using q2 by simp_all
    then have g: "1 \<le> fl (fl (fl (b - r) / d) + 2)" "fl (fl (fl (b - r) / d) + 2) \<le> 3"
      by (simp_all add: fl_ge fl_le fl_consts)
    have "3 \<le> fl (fl (r - g) / d) + 4" "fl (fl (r - g) / d) + 4 \<le> 5" using q3 by simp_all
    then have b: "3 \<le> fl (fl (fl (r - g) / d) + 4)" "fl (fl (fl (r - g) / d) + 4) \<le> 5"
      by (simp_all add: fl_ge fl_le fl_consts)
    show ?thesis using False g b by (simp add: h_def)
  qed
qed

lemma round_sector:
  fixes h :: rat
  assumes "0 \<le> h" "h \<le> 6"
  shows "0 \<le> round (fl (fl (h / 6) * 360))" and "round (fl (fl (h / 6) * 360)) \<le> 360"
proof -
  have "0 \<le> h / 6" "h / 6 \<le> 1" using assms by simp_all
  then have u: "0 \<le> fl (h / 6)" "fl (h / 6) \<le> 1" using fl_unit by blast+
  then have "0 \<le> fl (h / 6) * 360" "fl (h / 6) * 360 \<le> 360" by simp_all
  then have x: "0 \<le> fl (fl (h / 6) * 360)" "fl (fl (h / 6) * 360) \<le> 360"
    by (simp_all add: fl_nonneg fl_le fl_consts)
  have "0 \<le> fl (fl (h / 6) * 360) + 1 / 2" using x by simp
  then show "0 \<le> round (fl (fl (h / 6) * 360))"
    unfolding round_def by (simp add: le_floor_iff)
  have "fl (fl (h / 6) * 360) + 1 / 2 < 361" using x by simp
  then have "\<lfloor>fl (fl (h / 6) * 360) + 1 / 2\<rfloor> < 361"
    by (simp add: floor_less_iff)
  then show "round (fl (fl (h / 6) * 360)) \<le> 360"
    unfolding round_def by simp
qed

lemma denominators:
  fixes mx mn :: rat
  assumes "0 \<le> mn" "mn < mx" "mx \<le> 1"
  shows "0 < fl (mx - mn)" and "fl (mx - mn) \<le> fl (mx + mn)"
    and "fl (mx - mn) \<le> fl (fl (2 - mx) - mn)"
proof -
  show "0 < fl (mx - mn)" using assms by (intro fl_positive) simp
  show "fl (mx - mn) \<le> fl (mx + mn)" using assms by (intro fl_mono) simp
  have "1 \<le> fl (2 - mx)" using assms by (intro fl_ge) (simp_all add: fl_consts)
  then show "fl (mx - mn) \<le> fl (fl (2 - mx) - mn)" using assms by (intro fl_mono) simp
qed

lemma sat_bounds:
  fixes mx mn l :: rat
  assumes "0 \<le> mn" "mn < mx" "mx \<le> 1"
  defines "d \<equiv> fl (mx - mn)"
  defines "s \<equiv> (if l > 1 / 2 then fl (d / fl (fl (2 - mx) - mn)) else fl (d / fl (mx + mn)))"
  shows "0 \<le> s \<and> s \<le> 1"
proof -
  note dn = denominators [OF assms(1-3), folded d_def]
  have "0 \<le> d / fl (fl (2 - mx) - mn)" "d / fl (fl (2 - mx) - mn) \<le> 1"
    using dn by (simp_all add: field_simps)
  then have a: "0 \<le> fl (d / fl (fl (2 - mx) - mn)) \<and> fl (d / fl (fl (2 - mx) - mn)) \<le> 1"
    by (rule fl_unit)
  have "0 \<le> d / fl (mx + mn)" "d / fl (mx + mn) \<le> 1"
    using dn by (simp_all add: field_simps)
  then have b: "0 \<le> fl (d / fl (mx + mn)) \<and> fl (d / fl (mx + mn)) \<le> 1"
    by (rule fl_unit)
  show ?thesis using a b by (simp add: s_def)
qed

lemma light_bounds:
  fixes mx mn :: rat
  assumes "0 \<le> mn" "mn \<le> mx" "mx \<le> 1"
  shows "0 \<le> fl (fl (mx + mn) / 2)" "fl (fl (mx + mn) / 2) \<le> 1"
proof -
  have "0 \<le> fl (mx + mn)" "fl (mx + mn) \<le> 2"
    using assms by (simp_all add: fl_nonneg fl_le fl_consts)
  then have "0 \<le> fl (mx + mn) / 2" "fl (mx + mn) / 2 \<le> 1" by simp_all
  then show "0 \<le> fl (fl (mx + mn) / 2)" "fl (fl (mx + mn) / 2) \<le> 1"
    using fl_unit by blast+
qed

lemma rgbToHsl_denominators:
  assumes "0 \<le> r" "r \<le> 255" "0 \<le> g" "g \<le> 255" "0 \<le> b" "b \<le> 255"
  defines "mx \<equiv> max (fl (of_int r / 255)) (max (fl (of_int g / 255)) (fl (of_int b / 255)))"
  defines "mn \<equiv> min (fl (of_int r / 255)) (min (fl (of_int g / 255)) (fl (of_int b / 255)))"
  assumes "mx \<noteq> mn"
  shows "fl (mx - mn) \<noteq> 0" "fl (mx + mn) \<noteq> 0" "fl (fl (2 - mx) - mn) \<noteq> 0"
proof -
  note u = channel_unit [OF assms(1,2)] channel_unit [OF assms(3,4)] channel_unit [OF assms(5,6)]
  have "0 \<le> mn" "mn \<le> mx" "mx \<le> 1" using u by (auto simp: mx_def mn_def)
  with \<open>mx \<noteq> mn\<close> have "0 \<le> mn" "mn < mx" "mx \<le> 1" by simp_all
  from denominators [OF this]
  show "fl (mx - mn) \<noteq> 0" "fl (mx + mn) \<noteq> 0" "fl (fl (2 - mx) - mn) \<noteq> 0"
    by simp_all
qed

lemma rgbToHsl_range:
  assumes "0 \<le> r" "r \<le> 255" "0 \<le> g" "g \<le> 255" "0 \<le> b" "b \<le> 255"
  defines "x \<equiv> rgbToHsl \<lparr>rgb_r = r, rgb_g = g, rgb_b = b\<rparr>"
  shows "hsl_h x \<in> \<int>" and "0 \<le> hsl_h x" and "hsl_h x \<le> 360"
    and "0 \<le> hsl_s x" and "hsl_s x \<le> 1" and "0 \<le> hsl_l x" and "hsl_l x \<le> 1"
proof -
  define r' g' b' where "r' = fl (of_int r / 255)" and "g' = fl (of_int g / 255)"
    and "b' = fl (of_int b / 255)"
  define mx mn where "mx = max r' (max g' b')" and "mn = min r' (min g' b')"
  define l where "l = fl (fl (mx + mn) / 2)"
  define d where "d = fl (mx - mn)"
  define s where "s = (if l > 1 / 2 then fl (d / fl (fl (2 - mx) - mn)) else fl (d / fl (mx + mn)))"
  define h where "h = (if mx = r' then fl (fl (fl (g' - b') / d) + (if g' < b' then 6 else 0))
                    else if mx = g' then fl (fl (fl (b' - r') / d) + 2)
                    else if mx = b' then fl (fl (fl (r' - g') / d) + 4)
                    else 0)"
  have rng: "0 \<le> r'" "r' \<le> 1" "0 \<le> g'" "g' \<le> 1" "0 \<le> b'" "b' \<le> 1"
    using assms channel_unit by (simp_all add: r'_def g'_def b'_def)
  have m: "0 \<le> mn" "mn \<le> mx" "mx \<le> 1"
    using rng by (auto simp: mx_def mn_def)
  have lb: "0 \<le> l" "l \<le> 1" unfolding l_def using m by (rule light_bounds)+
  have x: "x = (if mx \<noteq> mn
      then \<lparr>hsl_h = of_int (round (fl (fl (h / 6) * 360))), hsl_s = of_rat s, hsl_l = of_rat l\<rparr>
      else \<lparr>hsl_h = of_int (round (fl (0 * 360))), hsl_s = 0, hsl_l = of_rat l\<rparr>)"
    unfolding x_def rgbToHsl_def Let_def RGB.simps
      r'_def [symmetric] g'_def [symmetric] b'_def [symmetric] mx_def [symmetric]
      mn_def [symmetric] l_def [symmetric] d_def [symmetric] s_def [symmetric] h_def [symmetric]
    by (rule refl)
  show "hsl_h x \<in> \<int>" by (simp add: x)
  show "0 \<le> hsl_l x" "hsl_l x \<le> 1"
    using lb by (simp_all add: x)
  have "0 \<le> hsl_h x \<and> hsl_h x \<le> 360 \<and> 0 \<le> hsl_s x \<and> hsl_s x \<le> 1"
  proof (cases "mx = mn")
    case True
    then show ?thesis by (simp add: x)
  next
    case False
    have hb: "0 \<le> h \<and> h \<le> 6"
      unfolding h_def d_def by (rule hue_sector [OF mx_def mn_def False])
    then have hr: "0 \<le> round (fl (fl (h / 6) * 360))" "round (fl (fl (h / 6) * 360)) \<le> 360"
      using round_sector by blast+
    have "mn < mx" using m False by simp
    from sat_bounds [OF m(1) this m(3), of l] have sb: "0 \<le> s \<and> s \<le> 1"
      unfolding s_def d_def .
    show ?thesis using False hr sb
      by (simp add: x)
  qed
  then show "0 \<le> hsl_h x" "hsl_h x \<le> 360" "0 \<le> hsl_s x" "hsl_s x \<le> 1" by simp_all
qed

lemma rgbToHsl_gray:
  "max r (max g b) = min r (min g b) \<Longrightarrow>
    hsl_h (rgbToHsl \<lparr>rgb_r = r, rgb_g = g, rgb_b = b\<rparr>) = 0 \<and>
    hsl_s (rgbToHsl \<lparr>rgb_r = r, rgb_g = g, rgb_b = b\<rparr>) = 0"
proof -
  assume "max r (max g b) = min r (min g b)"
  then have "r = g \<and> g = b" by (auto simp: max_def min_def split: if_splits)
  then show ?thesis by (simp add: rgbToHsl_def)
qed

section \<open>The 2 by 2 scenario\<close>

lemma scenario_counts:
  "sample_loop scenario_data 1 0 [] = Some
    [(16515072, \<lparr>b_count = 1, b_r = 252, b_g = 0, b_b = 0\<rparr>),
     (15728640, \<lparr>b_count = 1, b_r = 240, b_g = 0, b_b = 0\<rparr>),
     (252, \<lparr>b_count = 1, b_r = 0, b_g = 0, b_b = 252\<rparr>)]"
  by code_simp

lemma hsl_red:
  "rgbToHsl \<lparr>rgb_r = 252, rgb_g = 0, rgb_b = 0\<rparr> =
    \<lparr>hsl_h = 0, hsl_s = 1, hsl_l = 278163506396413 / 562949953421312\<rparr>"
  by code_simp

lemma hsl_blue:
  "rgbToHsl \<lparr>rgb_r = 0, rgb_g = 0, rgb_b = 252\<rparr> =
    \<lparr>hsl_h = 240, hsl_s = 1, hsl_l = 278163506396413 / 562949953421312\<rparr>"
  by code_simp

lemma hex_red: "rgbToHex \<lparr>rgb_r = 252, rgb_g = 0, rgb_b = 0\<rparr> = ''#fc0000''"
  by (simp add: rgbToHex_digits hex_digit_def)

lemma hex_blue: "rgbToHex \<lparr>rgb_r = 0, rgb_g = 0, rgb_b = 252\<rparr> = ''#0000fc''"
  by (simp add: rgbToHex_digits hex_digit_def)

lemma scenario_analyse: "analyse scenario_data 1 8 = Some scenario_palette"
  unfolding analyse_def scenario_counts scenario_palette_def
  by (simp add: js_sort_def by_count_def colorDistanceSq_def toColorData_def bucket_rgb_def
      hsl_red hsl_blue hex_red hex_blue categorizeColor_def isAccentColor_def Let_def
      scenario_red_def scenario_blue_def)

lemma scenario_canvas_size:
  "canvas_width scenario_image = 2" "canvas_height scenario_image = 2"
  by code_simp+

lemma scenario_canvas: "getImageData scenario_image (canvas_width scenario_image)
    (canvas_height scenario_image) = Inr scenario_data"
  by (simp add: getImageData_def scenario_image_def)

lemma scenario_result: "extractColors True scenario_image 1 8 = Some (Inr scenario_palette)"
proof -
  have "drawImage scenario_image = Inr ()"
    by (simp add: drawImage_def scenario_image_def)
  then show ?thesis
    by (simp add: extractColors_def scenario_canvas scenario_analyse del: One_nat_def)
qed

section \<open>The sampling loop\<close>

lemma sample_loop_total:
  "0 < sampleRate \<Longrightarrow> \<exists>m'. sample_loop data sampleRate i m = Some m'"
proof (induction "length data - i" arbitrary: i m rule: less_induct)
  case less
  show ?case
  proof (cases "i < length data")
    case True
    with less.prems have "length data - (i + 4 * sampleRate) < length data - i" by simp
    from less.hyps [OF this less.prems]
    show ?thesis using True by (subst sample_loop.simps) simp
  next
    case False
    then show ?thesis by (subst sample_loop.simps) simp
  qed
qed

lemma sample_loop_inv:
  assumes "sample_loop data sampleRate i m = Some m'"
    and "P m" and "\<And>j c. P c \<Longrightarrow> P (sample_pixel data j c)"
  shows "P m'"
proof -
  have "P m \<longrightarrow> (\<forall>j c. P c \<longrightarrow> P (sample_pixel data j c)) \<longrightarrow> P m'"
    by (rule sample_loop.raw_induct
        [where P = "\<lambda>d s i c y. P c \<longrightarrow> (\<forall>j c. P c \<longrightarrow> P (sample_pixel d j c)) \<longrightarrow> P y",
          OF _ assms(1)])
      (auto split: if_splits)
  with assms show ?thesis by blast
qed

lemma sample_loop_zero:
  assumes "sample_loop data sampleRate i m = Some m'"
  shows "sampleRate = 0 \<longrightarrow> length data \<le> i \<and> m' = m"
  by (rule sample_loop.raw_induct
      [where P = "\<lambda>d s i c y. s = 0 \<longrightarrow> length d \<le> i \<and> y = c", OF _ assms])
    (fastforce split: if_splits)

lemma sample_position_iff:
  fixes step :: nat
  assumes "0 < step"
  shows "(j < (n + step - 1) div step) = (j * step < n)"
proof -
  have "(j < (n + step - 1) div step) = (Suc j \<le> (n + step - 1) div step)" by auto
  also have "\<dots> = (Suc j * step \<le> n + step - 1)"
    using assms by (simp add: less_eq_div_iff_mult_less_eq)
  also have "\<dots> = (j * step < n)" using assms by auto
  finally show ?thesis .
qed

lemma sample_loop_fold:
  assumes "0 < sampleRate"
  shows "sample_loop data sampleRate (j * (4 * sampleRate)) m =
    Some (foldl (\<lambda>c i. sample_pixel data i c) m
      (map (\<lambda>k. k * (4 * sampleRate)) [j ..< (length data + 4 * sampleRate - 1) div (4 * sampleRate)]))"
proof (induction "(length data + 4 * sampleRate - 1) div (4 * sampleRate) - j" arbitrary: j m)
  case 0
  then have "\<not> j < (length data + 4 * sampleRate - 1) div (4 * sampleRate)" by simp
  then have "\<not> j * (4 * sampleRate) < length data"
    using assms sample_position_iff [of "4 * sampleRate" j "length data"] by simp
  then show ?case using 0 by (subst sample_loop.simps) simp
next
  case (Suc d)
  then have lt: "j < (length data + 4 * sampleRate - 1) div (4 * sampleRate)" by simp
  then have pos: "j * (4 * sampleRate) < length data"
    using assms sample_position_iff [of "4 * sampleRate" j "length data"] by simp
  have d: "d = (length data + 4 * sampleRate - 1) div (4 * sampleRate) - Suc j"
    using Suc.hyps(2) by simp
  have nxt: "j * (4 * sampleRate) + 4 * sampleRate = Suc j * (4 * sampleRate)" by simp
  show ?case
    apply (subst sample_loop.simps)
    apply (simp only: pos if_True nxt Suc.hyps(1) [OF d])
    apply (subst upt_conv_Cons [OF lt])
    apply simp
    done
qed

lemma sample_loop_positions:
  assumes "sample_loop data sampleRate 0 [] = Some m"
  shows "m = foldl (\<lambda>c i. sample_pixel data i c) [] (sample_positions (length data) sampleRate)"
proof (cases "sampleRate = 0")
  case True
  with sample_loop_zero [OF assms] show ?thesis
    by (simp add: sample_positions_def)
next
  case False
  then have "0 < sampleRate" by simp
  from sample_loop_fold [OF this, of data 0 "[]"] assms show ?thesis
    by (simp add: sample_positions_def)
qed

section \<open>Ranking and the distinctness filter\<close>

lemma set_insert_sorted: "set (insert_sorted cmp x ys) = insert x (set ys)"
  by (induction ys) auto

lemma set_js_sort: "set (js_sort cmp xs) = set xs"
  by (induction xs) (simp_all add: js_sort_def set_insert_sorted)

lemma sorted_insert_by_count:
  "sorted_wrt (\<lambda>a b. b_count b \<le> b_count a) ys \<Longrightarrow>
    sorted_wrt (\<lambda>a b. b_count b \<le> b_count a) (insert_sorted by_count x ys)"
  by (induction ys) (auto simp: set_insert_sorted by_count_def)

lemma sorted_js_sort:
  "sorted_wrt (\<lambda>a b. b_count b \<le> b_count a) (js_sort by_count xs)"
proof (induction xs)
  case Nil
  then show ?case by (simp add: js_sort_def)
next
  case (Cons x xs)
  then show ?case using sorted_insert_by_count [of "js_sort by_count xs" x]
    by (simp add: js_sort_def)
qed

lemma filter_insert_sorted:
  "filter (\<lambda>e. b_count e = p) (insert_sorted by_count x ys) =
    (if b_count x = p then x # filter (\<lambda>e. b_count e = p) ys else filter (\<lambda>e. b_count e = p) ys)"
  by (induction ys) (auto simp: by_count_def)

lemma filter_js_sort:
  "filter (\<lambda>e. b_count e = p) (js_sort by_count xs) = filter (\<lambda>e. b_count e = p) xs"
  by (induction xs) (simp_all add: js_sort_def filter_insert_sorted)

lemma distinct_loop_shape:
  "\<exists>zs. distinct_loop maxColors acc xs = acc @ zs \<and> subseq zs xs"
proof (induction xs arbitrary: acc)
  case Nil
  then show ?case by simp
next
  case (Cons x xs)
  show ?case
  proof (cases "maxColors \<le> length acc")
    case True
    then show ?thesis by simp
  next
    case False
    show ?thesis
    proof (cases "list_all (\<lambda>e. colorDistanceSq (bucket_rgb e) (bucket_rgb x) > 50 * 50) acc")
      case True
      from Cons [of "acc @ [x]"] obtain zs
        where "distinct_loop maxColors (acc @ [x]) xs = (acc @ [x]) @ zs" "subseq zs xs" by blast
      then have "distinct_loop maxColors acc (x # xs) = acc @ (x # zs) \<and> subseq (x # zs) (x # xs)"
        using False True by simp
      then show ?thesis by blast
    next
      case far: False
      from Cons [of acc] obtain zs
        where "distinct_loop maxColors acc xs = acc @ zs" "subseq zs xs" by blast
      then have "distinct_loop maxColors acc (x # xs) = acc @ zs \<and> subseq zs (x # xs)"
        using False far by (simp add: list_emb_Cons)
      then show ?thesis by blast
    qed
  qed
qed

lemma distinct_loop_subseq: "subseq (distinct_loop maxColors [] xs) xs"
  using distinct_loop_shape [of maxColors "[]" xs] by auto

lemma distinct_loop_far:
  "sorted_wrt (\<lambda>a b. 2500 < colorDistanceSq (bucket_rgb a) (bucket_rgb b)) acc \<Longrightarrow>
    sorted_wrt (\<lambda>a b. 2500 < colorDistanceSq (bucket_rgb a) (bucket_rgb b))
      (distinct_loop maxColors acc xs)"
proof (induction xs arbitrary: acc)
  case Nil
  then show ?case by simp
next
  case (Cons x xs)
  have "sorted_wrt (\<lambda>a b. 2500 < colorDistanceSq (bucket_rgb a) (bucket_rgb b)) (acc @ [x])"
    if "list_all (\<lambda>e. colorDistanceSq (bucket_rgb e) (bucket_rgb x) > 50 * 50) acc"
    using that Cons.prems by (simp add: sorted_wrt_append list_all_iff)
  then show ?case using Cons by (simp add: Let_def)
qed

lemma distinct_loop_length:
  "length acc \<le> maxColors \<Longrightarrow> length (distinct_loop maxColors acc xs) \<le> maxColors"
  by (induction xs arbitrary: acc) (auto simp: Let_def)

lemma subseq_set: "subseq xs ys \<Longrightarrow> set xs \<subseteq> set ys"
  by (induction rule: list_emb.induct) auto

lemma sorted_wrt_subseq:
  "subseq xs ys \<Longrightarrow> sorted_wrt R ys \<Longrightarrow> sorted_wrt R xs"
proof (induction rule: list_emb.induct)
  case (list_emb_Nil ys)
  then show ?case by simp
next
  case (list_emb_Cons xs ys y)
  then show ?case by simp
next
  case (list_emb_Cons2 x y xs ys)
  then have "set xs \<subseteq> set ys" by (simp add: subseq_set)
  with list_emb_Cons2 show ?case by auto
qed

section \<open>Invariants of sampling\<close>

lemma quantize_Some: "x < 256 \<Longrightarrow> quantize (Some x) = int (x div 12) * 12"
proof -
  assume "x < 256"
  have "\<lfloor>real x / 12\<rfloor> = int (x div 12)"
    using floor_divide_of_nat_eq [of x 12, where ?'a = real] by simp
  moreover have "int (x div 12) < 2147483648" using \<open>x < 256\<close> by simp
  ultimately show ?thesis
    by (simp add: quantize_def js_or0_def js_int32_id)
qed

lemma quantize_channel: "quantized_channel (quantize (data_at data i))"
proof (cases "i < length data")
  case True
  have "unat (data ! i) < 2 ^ LENGTH(8)" by (rule unsigned_less)
  then have "unat (data ! i) < 256" by simp
  then show ?thesis using True
    by (simp add: data_at_def quantize_Some quantized_channel_def)
next
  case False
  then show ?thesis by (simp add: data_at_def quantize_def js_or0_def quantized_channel_def)
qed

lemma sample_pixel_key:
  "sample_pixel data i m = (case sample_key data i of None \<Rightarrow> m
     | Some k \<Rightarrow> (case map_of m k of Some e \<Rightarrow> increment k m
         | None \<Rightarrow> m @ [(k, \<lparr>b_count = 1, b_r = quantize (data_at data i),
             b_g = quantize (data_at data (i + 1)), b_b = quantize (data_at data (i + 2))\<rparr>)]))"
  by (simp add: sample_pixel_def sample_key_def Let_def split: option.splits)

lemma map_fst_increment: "map fst (increment k m) = map fst m"
  by (induction m) (auto simp: increment_def)

lemma increment_ok: "\<forall>p\<in>set m. bucket_ok p \<Longrightarrow> \<forall>p\<in>set (increment k m). bucket_ok p"
  by (auto simp: increment_def bucket_ok_def)

lemma sample_pixel_ok:
  assumes "\<forall>p\<in>set m. bucket_ok p"
  shows "\<forall>p\<in>set (sample_pixel data i m). bucket_ok p"
proof (cases "sample_key data i")
  case None
  then show ?thesis using assms by (simp add: sample_pixel_key)
next
  case (Some k)
  then have k: "k = bucket_key (quantize (data_at data i)) (quantize (data_at data (i + 1)))
      (quantize (data_at data (i + 2)))"
    by (auto simp: sample_key_def split: if_splits)
  show ?thesis
  proof (cases "map_of m k")
    case None
    then show ?thesis using assms Some k
      by (simp add: sample_pixel_key bucket_ok_def quantize_channel)
  next
    case (Some e)
    then show ?thesis using increment_ok [OF assms] \<open>sample_key data i = Some k\<close>
      by (simp add: sample_pixel_key)
  qed
qed

lemma sample_pixel_keys:
  "map fst (sample_pixel data i m) = (case sample_key data i of None \<Rightarrow> map fst m
     | Some k \<Rightarrow> if k \<in> set (map fst m) then map fst m else map fst m @ [k])"
proof (cases "sample_key data i")
  case None
  then show ?thesis by (simp add: sample_pixel_key)
next
  case (Some k)
  show ?thesis
  proof (cases "map_of m k")
    case None
    then have "k \<notin> fst ` set m" by (simp add: map_of_eq_None_iff)
    then show ?thesis using Some None by (simp add: sample_pixel_key)
  next
    case (Some e)
    then have "k \<in> fst ` set m" by (metis map_of_eq_None_iff option.distinct(1))
    then show ?thesis using Some \<open>sample_key data i = Some k\<close>
      by (simp add: sample_pixel_key map_fst_increment)
  qed
qed

lemma first_seen_snoc:
  "first_seen (ks @ [k]) =
    (if k \<in> set (first_seen ks) then first_seen ks else first_seen ks @ [k])"
  by (simp add: first_seen_def)

lemma fold_keys:
  "map fst (foldl (\<lambda>c i. sample_pixel data i c) [] ps) =
    first_seen (List.map_filter (sample_key data) ps)"
proof (induction ps rule: rev_induct)
  case Nil
  then show ?case by (simp add: first_seen_def)
next
  case (snoc i ps)
  show ?case
  proof (cases "sample_key data i")
    case None
    then show ?thesis using snoc
      by (simp add: sample_pixel_keys map_filter_def)
  next
    case (Some k)
    then have "List.map_filter (sample_key data) (ps @ [i]) =
        List.map_filter (sample_key data) ps @ [k]"
      by (simp add: map_filter_def)
    then show ?thesis using snoc Some
      by (simp add: sample_pixel_keys first_seen_snoc)
  qed
qed

lemma first_seen_distinct: "distinct (first_seen ks)"
  by (induction ks rule: rev_induct) (simp_all add: first_seen_def)

lemma first_seen_set: "set (first_seen ks) = set ks"
  by (induction ks rule: rev_induct) (auto simp: first_seen_snoc first_seen_def)

section \<open>The parts of a result\<close>

lemma extractColors_Inr:
  assumes "extractColors ctx img sampleRate maxColors = Some (Inr res)"
  shows "analyse (drawn img (canvas_width img) (canvas_height img)) sampleRate maxColors = Some res"
  using assms
  by (auto simp: extractColors_def drawImage_def getImageData_def
      split: if_splits sum.splits option.splits)

lemma analyse_total: "0 < sampleRate \<Longrightarrow> \<exists>res. analyse data sampleRate maxColors = Some res"
  using sample_loop_total [of sampleRate data 0 "[]"]
  by (auto simp: analyse_def Let_def)

lemma extractColors_total:
  "0 < sampleRate \<Longrightarrow> \<exists>out. extractColors ctx img sampleRate maxColors = Some out"
  using analyse_total [of sampleRate "drawn img (canvas_width img) (canvas_height img)" maxColors]
  by (auto simp: extractColors_def getImageData_def split: sum.splits option.splits)

lemma analyse_parts:
  assumes "analyse data sampleRate maxColors = Some res"
  obtains m where "sample_loop data sampleRate 0 [] = Some m"
    and "all res = map toColorData (distinct_loop maxColors [] (js_sort by_count (map snd m)))"
    and "warm res = filter (\<lambda>c. category c = Warm) (all res)"
    and "cool res = filter (\<lambda>c. category c = Cool) (all res)"
    and "neutral res = filter (\<lambda>c. category c = Neutral) (all res)"
    and "accents res = filter (\<lambda>c. isAccentColor (hsl c)) (all res)"
  using assms by (auto simp: analyse_def Let_def split: option.splits)

lemma toColorData_fields:
  "rgb (toColorData e) = bucket_rgb e" "population (toColorData e) = b_count e"
  "hex (toColorData e) = rgbToHex (bucket_rgb e)" "hsl (toColorData e) = rgbToHsl (bucket_rgb e)"
  "category (toColorData e) = categorizeColor (rgbToHsl (bucket_rgb e))"
  by (simp_all add: toColorData_def Let_def)

lemma colorDistanceSq_sym: "colorDistanceSq a b = colorDistanceSq b a"
  by (simp add: colorDistanceSq_def power2_commute)

lemma all_far_apart:
  assumes "analyse data sampleRate maxColors = Some res"
  shows "sorted_wrt (\<lambda>a b. 2500 < colorDistanceSq (rgb a) (rgb b)) (all res)"
proof -
  from assms obtain m :: ColorCounts
    where a: "all res = map toColorData (distinct_loop maxColors [] (js_sort by_count (map snd m)))"
    by (rule analyse_parts)
  have "sorted_wrt (\<lambda>a b. 2500 < colorDistanceSq (bucket_rgb a) (bucket_rgb b))
      (distinct_loop maxColors [] (js_sort by_count (map snd m)))"
    by (rule distinct_loop_far) simp
  then show ?thesis
    by (simp add: a sorted_wrt_map toColorData_fields)
qed



lemma sorted_population:
  assumes "analyse data sampleRate maxColors = Some res"
  shows "sorted_wrt (\<lambda>a b. population b \<le> population a) (all res)"
proof -
  from assms obtain m :: ColorCounts
    where a: "all res = map toColorData (distinct_loop maxColors [] (js_sort by_count (map snd m)))"
    by (rule analyse_parts)
  have "sorted_wrt (\<lambda>a b. b_count b \<le> b_count a)
      (distinct_loop maxColors [] (js_sort by_count (map snd m)))"
    using distinct_loop_subseq sorted_js_sort by (rule sorted_wrt_subseq)
  then show ?thesis
    by (simp add: a sorted_wrt_map toColorData_fields)
qed

lemma ties_in_sampling_order:
  assumes "analyse data sampleRate maxColors = Some res"
  shows "subseq (map color_key (filter (\<lambda>c. population c = p) (all res)))
    (first_seen (sampled_keys data sampleRate))"
proof -
  from assms obtain m :: ColorCounts
    where l: "sample_loop data sampleRate 0 [] = Some m"
      and a: "all res = map toColorData (distinct_loop maxColors [] (js_sort by_count (map snd m)))"
    by (rule analyse_parts)
  define D where "D = distinct_loop maxColors [] (js_sort by_count (map snd m))"
  define key where "key = (\<lambda>e :: Bucket. bucket_key (b_r e) (b_g e) (b_b e))"
  have ok: "\<forall>p\<in>set m. bucket_ok p"
    by (rule sample_loop_inv [OF l]) (simp_all add: sample_pixel_ok)
  have keys: "map fst m = first_seen (sampled_keys data sampleRate)"
    unfolding sample_loop_positions [OF l] sampled_keys_def by (rule fold_keys)
  have "map key (map snd m) = map fst m"
    using ok by (induction m) (auto simp: bucket_ok_def key_def)
  with keys have k: "map key (map snd m) = first_seen (sampled_keys data sampleRate)" by simp
  have "subseq D (js_sort by_count (map snd m))"
    unfolding D_def by (rule distinct_loop_subseq)
  then have "subseq (filter (\<lambda>e. b_count e = p) D)
      (filter (\<lambda>e. b_count e = p) (js_sort by_count (map snd m)))"
    by (rule subseq_filter)
  then have "subseq (filter (\<lambda>e. b_count e = p) D) (filter (\<lambda>e. b_count e = p) (map snd m))"
    by (simp only: filter_js_sort)
  then have "subseq (filter (\<lambda>e. b_count e = p) D) (map snd m)"
    using subseq_filter_left subseq_order.order_trans by blast
  then have "subseq (map key (filter (\<lambda>e. b_count e = p) D)) (map key (map snd m))"
    by (rule subseq_map)
  moreover have "map color_key (filter (\<lambda>c. population c = p) (all res)) =
      map key (filter (\<lambda>e. b_count e = p) D)"
    by (simp add: a D_def [symmetric] filter_map comp_def toColorData_fields color_key_def
        key_def bucket_rgb_def)
  ultimately show ?thesis using k by simp
qed

lemma partition_lengths:
  "length xs = length (filter (\<lambda>c. category c = Warm) xs)
     + length (filter (\<lambda>c. category c = Cool) xs)
     + length (filter (\<lambda>c. category c = Neutral) xs)"
proof (induction xs)
  case Nil
  then show ?case by simp
next
  case (Cons x xs)
  then show ?case by (cases "category x") simp_all
qed

lemma hex_not_white:
  assumes "0 \<le> rgb_r c" "rgb_r c \<le> 252" "0 \<le> rgb_g c" "rgb_g c \<le> 255"
    "0 \<le> rgb_b c" "rgb_b c \<le> 255"
  shows "rgbToHex c \<noteq> ''#ffffff''"
proof
  assume e: "rgbToHex c = ''#ffffff''"
  obtain r g b where c: "c = \<lparr>rgb_r = r, rgb_g = g, rgb_b = b\<rparr>" by (cases c) auto
  have "hexToRgb ''#ffffff'' = Some \<lparr>rgb_r = 255, rgb_g = 255, rgb_b = 255\<rparr>"
    by (simp add: hexToRgb_def hex_exec_def hex_groups_def hex_class_def parseInt16_def
        hex_value_def)
  moreover have "hexToRgb (rgbToHex \<lparr>rgb_r = r, rgb_g = g, rgb_b = b\<rparr>) =
      Some \<lparr>rgb_r = r, rgb_g = g, rgb_b = b\<rparr>"
    using assms c by (intro hexToRgb_rgbToHex) simp_all
  ultimately show False using e assms c by simp
qed

lemma all_quantized:
  assumes "analyse data sampleRate maxColors = Some res" and "c \<in> set (all res)"
  shows "quantized_channel (rgb_r (rgb c))" "quantized_channel (rgb_g (rgb c))"
    "quantized_channel (rgb_b (rgb c))" "hex c = rgbToHex (rgb c)" "hsl c = rgbToHsl (rgb c)"
    "category c = categorizeColor (hsl c)"
proof -
  from assms(1) obtain m :: ColorCounts
    where l: "sample_loop data sampleRate 0 [] = Some m"
      and a: "all res = map toColorData (distinct_loop maxColors [] (js_sort by_count (map snd m)))"
    by (rule analyse_parts)
  have ok: "\<forall>p\<in>set m. bucket_ok p"
    by (rule sample_loop_inv [OF l]) (simp_all add: sample_pixel_ok)
  from assms(2) a obtain e
    where e: "e \<in> set (distinct_loop maxColors [] (js_sort by_count (map snd m)))"
      and c: "c = toColorData e"
    by auto
  have "set (distinct_loop maxColors [] (js_sort by_count (map snd m))) \<subseteq>
      set (js_sort by_count (map snd m))"
    by (rule subseq_set [OF distinct_loop_subseq])
  with e have "e \<in> set (map snd m)"
    by (auto simp: set_js_sort)
  then obtain k where "(k, e) \<in> set m" by auto
  with ok have "bucket_ok (k, e)" by blast
  then show "quantized_channel (rgb_r (rgb c))" "quantized_channel (rgb_g (rgb c))"
    "quantized_channel (rgb_b (rgb c))"
    by (simp_all add: c toColorData_fields bucket_rgb_def bucket_ok_def)
  show "hex c = rgbToHex (rgb c)" "hsl c = rgbToHsl (rgb c)" "category c = categorizeColor (hsl c)"
    by (simp_all add: c toColorData_fields)
qed

lemma entry_quantized:
  assumes r: "extractColors ctx img sampleRate maxColors = Some (Inr res)"
    and c: "c \<in> set (all res) \<union> set (warm res) \<union> set (cool res) \<union> set (neutral res)
               \<union> set (accents res)"
  shows "(\<forall>v\<in>{rgb_r (rgb c), rgb_g (rgb c), rgb_b (rgb c)}. 0 \<le> v \<and> v \<le> 252 \<and> 12 dvd v)
    \<and> hex c = rgbToHex (rgb c) \<and> hsl c = rgbToHsl (rgb c) \<and> hex c \<noteq> ''#ffffff''"
proof -
  note an = extractColors_Inr [OF r]
  from an obtain m :: ColorCounts
    where "warm res = filter (\<lambda>c. category c = Warm) (all res)"
      and "cool res = filter (\<lambda>c. category c = Cool) (all res)"
      and "neutral res = filter (\<lambda>c. category c = Neutral) (all res)"
      and "accents res = filter (\<lambda>c. isAccentColor (hsl c)) (all res)"
    by (rule analyse_parts)
  with c have m: "c \<in> set (all res)" by auto
  note q = all_quantized [OF an m]
  have "rgbToHex (rgb c) \<noteq> ''#ffffff''"
    using q(1-3) by (intro hex_not_white) (simp_all add: quantized_channel_def)
  then have "hex c \<noteq> ''#ffffff''" by (simp add: q(4))
  then show ?thesis
    using q by (simp add: quantized_channel_def)
qed

section \<open>Claims about the converter and the classifier\<close>



text \<open>
  C3, as the code has it. For channels in [0, 255] \<open>rgbToHsl\<close> returns a hue that is a
  whole number of degrees in the closed range [0, 360], and a saturation and a lightness
  in [0, 1]; when the largest channel equals the smallest, hue and saturation are 0.
  The hue 360 is reached, so the range is not [0, 360).
\<close>

theorem rgbToHsl_ranges:
  assumes "0 \<le> r" "r \<le> 255" "0 \<le> g" "g \<le> 255" "0 \<le> b" "b \<le> 255"
  shows "hsl_h (rgbToHsl \<lparr>rgb_r = r, rgb_g = g, rgb_b = b\<rparr>) \<in> \<int>
    \<and> 0 \<le> hsl_h (rgbToHsl \<lparr>rgb_r = r, rgb_g = g, rgb_b = b\<rparr>)
    \<and> hsl_h (rgbToHsl \<lparr>rgb_r = r, rgb_g = g, rgb_b = b\<rparr>) \<le> 360
    \<and> 0 \<le> hsl_s (rgbToHsl \<lparr>rgb_r = r, rgb_g = g, rgb_b = b\<rparr>)
    \<and> hsl_s (rgbToHsl \<lparr>rgb_r = r, rgb_g = g, rgb_b = b\<rparr>) \<le> 1
    \<and> 0 \<le> hsl_l (rgbToHsl \<lparr>rgb_r = r, rgb_g = g, rgb_b = b\<rparr>)
    \<and> hsl_l (rgbToHsl \<lparr>rgb_r = r, rgb_g = g, rgb_b = b\<rparr>) \<le> 1
    \<and> (max r (max g b) = min r (min g b) \<longrightarrow>
         hsl_h (rgbToHsl \<lparr>rgb_r = r, rgb_g = g, rgb_b = b\<rparr>) = 0
         \<and> hsl_s (rgbToHsl \<lparr>rgb_r = r, rgb_g = g, rgb_b = b\<rparr>) = 0)"
  using rgbToHsl_range [OF assms] rgbToHsl_gray [of r g b] by blast

theorem rgbToHsl_ranges_witness:
  "hsl_h (rgbToHsl \<lparr>rgb_r = 128, rgb_g = 128, rgb_b = 128\<rparr>) = 0
   \<and> hsl_s (rgbToHsl \<lparr>rgb_r = 128, rgb_g = 128, rgb_b = 128\<rparr>) = 0
   \<and> hsl_l (rgbToHsl \<lparr>rgb_r = 128, rgb_g = 128, rgb_b = 128\<rparr>) \<le> 1"
  using rgbToHsl_ranges [of 128 128 128] by simp

text \<open>
  C3 as stated fails: for the triple (255, 0, 1) the hue before \<open>Math.round\<close> is the
  double 359.7647..., which it takes to 360, outside [0, 360).
\<close>

theorem rgbToHsl_hue_counterexample:
  "\<not> hsl_h (rgbToHsl \<lparr>rgb_r = 255, rgb_g = 0, rgb_b = 1\<rparr>) < 360"
  by code_simp

text \<open>
  C4. For channels that are integers in [0, 255], \<open>hexToRgb (rgbToHex rgb)\<close> is \<open>rgb\<close>, and
  \<open>rgbToHex rgb\<close> is \<open>#\<close> followed by six characters out of \<open>0123456789abcdef\<close>.
\<close>

theorem hex_round_trip:
  assumes "0 \<le> r" "r \<le> 255" "0 \<le> g" "g \<le> 255" "0 \<le> b" "b \<le> 255"
  shows "hexToRgb (rgbToHex \<lparr>rgb_r = r, rgb_g = g, rgb_b = b\<rparr>) =
      Some \<lparr>rgb_r = r, rgb_g = g, rgb_b = b\<rparr>
    \<and> length (rgbToHex \<lparr>rgb_r = r, rgb_g = g, rgb_b = b\<rparr>) = 7
    \<and> hd (rgbToHex \<lparr>rgb_r = r, rgb_g = g, rgb_b = b\<rparr>) = CHR ''#''
    \<and> set (tl (rgbToHex \<lparr>rgb_r = r, rgb_g = g, rgb_b = b\<rparr>)) \<subseteq> set ''0123456789abcdef''"
proof -
  have lt: "nat r div 16 < 16" "nat r mod 16 < 16" "nat g div 16 < 16" "nat g mod 16 < 16"
    "nat b div 16 < 16" "nat b mod 16 < 16"
    using assms by (simp_all add: less_mult_imp_div_less)
  have "set (tl (rgbToHex \<lparr>rgb_r = r, rgb_g = g, rgb_b = b\<rparr>)) \<subseteq> set ''0123456789abcdef''"
    unfolding rgbToHex_digits [OF assms]
    using lt [THEN hex_digit_cases(3)] by simp
  then show ?thesis
    using hexToRgb_rgbToHex [OF assms] by (simp add: rgbToHex_digits [OF assms])
qed

theorem hex_round_trip_witness:
  "hexToRgb (rgbToHex \<lparr>rgb_r = 18, rgb_g = 171, rgb_b = 255\<rparr>) =
     Some \<lparr>rgb_r = 18, rgb_g = 171, rgb_b = 255\<rparr>
   \<and> length (rgbToHex \<lparr>rgb_r = 18, rgb_g = 171, rgb_b = 255\<rparr>) = 7"
  using hex_round_trip [of 18 171 255] by simp

text \<open>
  C9. \<open>hexToRgb\<close> returns a colour exactly for the strings that are six hexadecimal
  digits of either case, with or without a \<open>#\<close> in front; on every other string it
  returns null, as on \<open>not-a-color\<close>. The function has no other outcome: it never throws.
\<close>

theorem hexToRgb_accepts:
  "(hexToRgb s \<noteq> None) =
     (\<exists>t. (s = t \<or> s = CHR ''#'' # t) \<and> length t = 6
        \<and> set t \<subseteq> set ''0123456789abcdefABCDEF'')
   \<and> hexToRgb ''not-a-color'' = None"
proof -
  have "list_all hex_class t = (set t \<subseteq> set ''0123456789abcdefABCDEF'')" for t
    unfolding list_all_iff hex_class_def by blast
  moreover have "hexToRgb ''not-a-color'' = None"
    by (simp add: hexToRgb_def hex_exec_def hex_groups_def)
  ultimately show ?thesis
    by (simp del: not_None_eq add: hexToRgb_Some_iff hex_exec_Some_iff)
qed

theorem hexToRgb_accepts_witness:
  "hexToRgb ''#1aB2c3'' \<noteq> None \<and> hexToRgb ''#1aB2c'' = None"
proof -
  have "\<exists>t. (''#1aB2c3'' = t \<or> ''#1aB2c3'' = CHR ''#'' # t) \<and> length t = 6
      \<and> set t \<subseteq> set ''0123456789abcdefABCDEF''"
    by (rule exI [of _ "''1aB2c3''"]) simp
  moreover have "\<not> (\<exists>t. (''#1aB2c'' = t \<or> ''#1aB2c'' = CHR ''#'' # t) \<and> length t = 6
      \<and> set t \<subseteq> set ''0123456789abcdefABCDEF'')"
    by auto
  ultimately show ?thesis
    using hexToRgb_accepts [of "''#1aB2c3''"] hexToRgb_accepts [of "''#1aB2c''"]
    by blast
qed

section \<open>Claims about the extractor\<close>

text \<open>
  C1, as the code has it. In the 2 by 2 scenario (stride 1, at most 8 colours) the pixel
  with alpha 128 is skipped. (255, 0, 0) falls into the bucket (252, 0, 0) and
  (250, 5, 5) into the bucket (240, 0, 0): two buckets, each with population 1, and
  the distinctness filter drops the second, which is at squared distance 144 from the
  first. \<open>all\<close> has exactly two entries: (252, 0, 0), Warm, population 1, and then
  (0, 0, 252), Cool, population 1.
\<close>

theorem scenario_extraction:
  "sample_key scenario_data 12 = None
   \<and> sample_loop scenario_data 1 0 [] = Some
       [(16515072, \<lparr>b_count = 1, b_r = 252, b_g = 0, b_b = 0\<rparr>),
        (15728640, \<lparr>b_count = 1, b_r = 240, b_g = 0, b_b = 0\<rparr>),
        (252, \<lparr>b_count = 1, b_r = 0, b_g = 0, b_b = 252\<rparr>)]
   \<and> colorDistanceSq \<lparr>rgb_r = 252, rgb_g = 0, rgb_b = 0\<rparr> \<lparr>rgb_r = 240, rgb_g = 0, rgb_b = 0\<rparr> = 144
   \<and> extractColors True scenario_image 1 8 = Some (Inr
       \<lparr>all = [scenario_red, scenario_blue], warm = [scenario_red], cool = [scenario_blue],
        neutral = [], accents = [scenario_red, scenario_blue]\<rparr>)"
proof -
  have "sample_key scenario_data 12 = None"
    by (simp add: sample_key_def scenario_data_def data_at_def below200_def)
  then show ?thesis
    using scenario_counts scenario_result
    by (simp add: colorDistanceSq_def scenario_palette_def del: One_nat_def)
qed

text \<open>
  C1 as stated fails: the two reddish pixels are counted under different keys, and the
  first entry of \<open>all\<close> has population 1, not 2.
\<close>

theorem scenario_population_counterexample:
  "sample_key scenario_data 0 \<noteq> sample_key scenario_data 4
   \<and> extractColors True scenario_image 1 8 = Some (Inr scenario_palette)
   \<and> population (hd (all scenario_palette)) \<noteq> 2"
proof -
  have "sample_key scenario_data 0 = Some 16515072"
    by code_simp
  moreover have "sample_key scenario_data 4 = Some 15728640"
    by code_simp
  ultimately show ?thesis
    using scenario_result by (simp add: scenario_palette_def scenario_red_def)
qed

text \<open>
  C5. Whenever \<open>extractColors\<close> resolves, any two entries of \<open>all\<close> at different
  positions have a squared RGB distance above 2500; and it does resolve or reject for
  every positive stride.
\<close>

theorem all_pairwise_distant:
  "(0 < sampleRate \<longrightarrow> (\<exists>out. extractColors ctx img sampleRate maxColors = Some out))
   \<and> (\<forall>res. extractColors ctx img sampleRate maxColors = Some (Inr res) \<longrightarrow>
        (\<forall>i j. i < length (all res) \<and> j < length (all res) \<and> i \<noteq> j \<longrightarrow>
           2500 < colorDistanceSq (rgb (all res ! i)) (rgb (all res ! j))))"
proof (intro conjI allI impI)
  assume "0 < sampleRate"
  then show "\<exists>out. extractColors ctx img sampleRate maxColors = Some out"
    by (rule extractColors_total)
next
  fix res i j
  assume r: "extractColors ctx img sampleRate maxColors = Some (Inr res)"
    and ij: "i < length (all res) \<and> j < length (all res) \<and> i \<noteq> j"
  from all_far_apart [OF extractColors_Inr [OF r]]
  have far: "\<And>k l. k < l \<Longrightarrow> l < length (all res) \<Longrightarrow>
      2500 < colorDistanceSq (rgb (all res ! k)) (rgb (all res ! l))"
    by (simp add: sorted_wrt_iff_nth_less)
  show "2500 < colorDistanceSq (rgb (all res ! i)) (rgb (all res ! j))"
  proof (cases "i < j")
    case True
    then show ?thesis using far ij by simp
  next
    case False
    then have "j < i" using ij by simp
    then show ?thesis using far [of j i] ij by (simp add: colorDistanceSq_sym)
  qed
qed

theorem all_pairwise_distant_witness:
  "extractColors True scenario_image 1 8 = Some (Inr scenario_palette)
   \<and> 2500 < colorDistanceSq (rgb (all scenario_palette ! 0)) (rgb (all scenario_palette ! 1))"
proof -
  have "length (all scenario_palette) = 2" by (simp add: scenario_palette_def)
  then show ?thesis
    using all_pairwise_distant [of 1 True scenario_image 8] scenario_result by simp
qed




text \<open>
  C7. Whenever \<open>extractColors\<close> resolves, \<open>all\<close> is in descending order of population,
  and for every population \<open>p\<close> the keys of the entries with that population, in the order
  they have in \<open>all\<close>, form a subsequence of the keys in the order sampling first met
  them (a list without repetition): ties keep the order of first encounter.
\<close>

theorem all_sorted_stable:
  "(0 < sampleRate \<longrightarrow> (\<exists>out. extractColors ctx img sampleRate maxColors = Some out))
   \<and> (\<forall>res. extractColors ctx img sampleRate maxColors = Some (Inr res) \<longrightarrow>
        sorted_wrt (\<lambda>a b. population b \<le> population a) (all res)
        \<and> (\<forall>p. subseq (map color_key (filter (\<lambda>c. population c = p) (all res)))
             (first_seen (sampled_keys (drawn img (canvas_width img) (canvas_height img))
                sampleRate)))
        \<and> distinct (first_seen (sampled_keys (drawn img (canvas_width img) (canvas_height img))
                sampleRate)))"
  using extractColors_total [of sampleRate ctx img maxColors]
    sorted_population [OF extractColors_Inr] ties_in_sampling_order [OF extractColors_Inr]
    first_seen_distinct
  by blast

theorem all_sorted_stable_witness:
  "extractColors True scenario_image 1 8 = Some (Inr scenario_palette)
   \<and> sorted_wrt (\<lambda>a b. population b \<le> population a) (all scenario_palette)
   \<and> subseq (map color_key (filter (\<lambda>c. population c = 1) (all scenario_palette)))
        (first_seen (sampled_keys scenario_data 1))"
proof -
  have "drawn scenario_image (canvas_width scenario_image) (canvas_height scenario_image) =
      scenario_data"
    by (simp add: scenario_image_def)
  then show ?thesis
    using all_sorted_stable [of 1 True scenario_image 8] scenario_result
    by (simp del: One_nat_def)
qed

text \<open>
  C8. Whenever \<open>extractColors\<close> resolves, \<open>warm\<close>, \<open>cool\<close> and \<open>neutral\<close> are the entries
  of \<open>all\<close> of the respective category: every entry of \<open>all\<close> is in exactly one of the
  three, the three hold nothing else, and their lengths add up to that of \<open>all\<close>.
  \<open>accents\<close> holds the entries of \<open>all\<close> with saturation at least 0.45 and lightness
  between 0.2 and 0.85, whatever their category.
\<close>

theorem palette_views:
  "(0 < sampleRate \<longrightarrow> (\<exists>out. extractColors ctx img sampleRate maxColors = Some out))
   \<and> (\<forall>res. extractColors ctx img sampleRate maxColors = Some (Inr res) \<longrightarrow>
        warm res = filter (\<lambda>c. category c = Warm) (all res)
        \<and> cool res = filter (\<lambda>c. category c = Cool) (all res)
        \<and> neutral res = filter (\<lambda>c. category c = Neutral) (all res)
        \<and> (\<forall>c\<in>set (all res).
              (c \<in> set (warm res) \<and> c \<notin> set (cool res) \<and> c \<notin> set (neutral res))
            \<or> (c \<notin> set (warm res) \<and> c \<in> set (cool res) \<and> c \<notin> set (neutral res))
            \<or> (c \<notin> set (warm res) \<and> c \<notin> set (cool res) \<and> c \<in> set (neutral res)))
        \<and> length (all res) = length (warm res) + length (cool res) + length (neutral res)
        \<and> set (warm res) \<union> set (cool res) \<union> set (neutral res) \<subseteq> set (all res)
        \<and> accents res = filter (\<lambda>c. isAccentColor (hsl c)) (all res)
        \<and> (\<forall>c. c \<in> set (accents res) \<longleftrightarrow>
              c \<in> set (all res) \<and> hsl_s (hsl c) \<ge> 0.45 \<and> hsl_l (hsl c) \<ge> 0.2
              \<and> hsl_l (hsl c) \<le> 0.85))"
proof (intro conjI allI impI)
  assume "0 < sampleRate"
  then show "\<exists>out. extractColors ctx img sampleRate maxColors = Some out"
    by (rule extractColors_total)
next
  fix res
  assume r: "extractColors ctx img sampleRate maxColors = Some (Inr res)"
  from extractColors_Inr [OF r] obtain m :: ColorCounts
    where w: "warm res = filter (\<lambda>c. category c = Warm) (all res)"
      and c: "cool res = filter (\<lambda>c. category c = Cool) (all res)"
      and n: "neutral res = filter (\<lambda>c. category c = Neutral) (all res)"
      and a: "accents res = filter (\<lambda>c. isAccentColor (hsl c)) (all res)"
    by (rule analyse_parts)
  show "warm res = filter (\<lambda>c. category c = Warm) (all res)" by (rule w)
  show "cool res = filter (\<lambda>c. category c = Cool) (all res)" by (rule c)
  show "neutral res = filter (\<lambda>c. category c = Neutral) (all res)" by (rule n)
  show "accents res = filter (\<lambda>c. isAccentColor (hsl c)) (all res)" by (rule a)
  show "\<forall>c\<in>set (all res).
              (c \<in> set (warm res) \<and> c \<notin> set (cool res) \<and> c \<notin> set (neutral res))
            \<or> (c \<notin> set (warm res) \<and> c \<in> set (cool res) \<and> c \<notin> set (neutral res))
            \<or> (c \<notin> set (warm res) \<and> c \<notin> set (cool res) \<and> c \<in> set (neutral res))"
  proof
    fix x assume "x \<in> set (all res)"
    then show "(x \<in> set (warm res) \<and> x \<notin> set (cool res) \<and> x \<notin> set (neutral res))
            \<or> (x \<notin> set (warm res) \<and> x \<in> set (cool res) \<and> x \<notin> set (neutral res))
            \<or> (x \<notin> set (warm res) \<and> x \<notin> set (cool res) \<and> x \<in> set (neutral res))"
      by (cases "category x") (simp_all add: w c n)
  qed
  show "length (all res) = length (warm res) + length (cool res) + length (neutral res)"
    unfolding w c n by (rule partition_lengths)
  show "set (warm res) \<union> set (cool res) \<union> set (neutral res) \<subseteq> set (all res)"
    by (auto simp: w c n)
  show "\<And>x. x \<in> set (accents res) \<longleftrightarrow>
              x \<in> set (all res) \<and> hsl_s (hsl x) \<ge> 0.45 \<and> hsl_l (hsl x) \<ge> 0.2
              \<and> hsl_l (hsl x) \<le> 0.85"
    by (simp add: a isAccentColor_def)
qed

theorem palette_views_witness:
  "extractColors True scenario_image 1 8 = Some (Inr scenario_palette)
   \<and> scenario_red \<in> set (all scenario_palette)
   \<and> scenario_red \<in> set (warm scenario_palette)
   \<and> scenario_red \<notin> set (cool scenario_palette)
   \<and> scenario_red \<notin> set (neutral scenario_palette)
   \<and> scenario_red \<in> set (accents scenario_palette)"
proof -
  have "scenario_red \<in> set (all scenario_palette)" "category scenario_red = Warm"
    "isAccentColor (hsl scenario_red)"
    by (simp_all add: scenario_palette_def scenario_red_def isAccentColor_def)
  then show ?thesis
    using palette_views [of 1 True scenario_image 8] scenario_result
    by (simp del: One_nat_def)
qed

text \<open>
  C10. Whenever \<open>extractColors\<close> resolves, every entry of the five sequences has channels
  that are multiples of 12 between 0 and 252, its \<open>hex\<close> and \<open>hsl\<close> are those of these
  channels, and its \<open>hex\<close> is not \<open>#ffffff\<close>.
\<close>

theorem palette_quantized:
  "(0 < sampleRate \<longrightarrow> (\<exists>out. extractColors ctx img sampleRate maxColors = Some out))
   \<and> (\<forall>res. extractColors ctx img sampleRate maxColors = Some (Inr res) \<longrightarrow>
        (\<forall>c\<in>set (all res) \<union> set (warm res) \<union> set (cool res) \<union> set (neutral res)
               \<union> set (accents res).
           (\<forall>v\<in>{rgb_r (rgb c), rgb_g (rgb c), rgb_b (rgb c)}. 0 \<le> v \<and> v \<le> 252 \<and> 12 dvd v)
           \<and> hex c = rgbToHex (rgb c) \<and> hsl c = rgbToHsl (rgb c)
           \<and> hex c \<noteq> ''#ffffff''))"
  using extractColors_total [of sampleRate ctx img maxColors]
    entry_quantized [of ctx img sampleRate maxColors]
  by blast

theorem palette_quantized_witness:
  "extractColors True scenario_image 1 8 = Some (Inr scenario_palette)
   \<and> scenario_blue \<in> set (cool scenario_palette)
   \<and> rgb_b (rgb scenario_blue) \<le> 252 \<and> 12 dvd rgb_b (rgb scenario_blue)
   \<and> hex scenario_blue = rgbToHex (rgb scenario_blue)
   \<and> hex scenario_blue \<noteq> ''#ffffff''"
proof -
  have m: "scenario_blue \<in> set (all scenario_palette) \<union> set (warm scenario_palette)
      \<union> set (cool scenario_palette) \<union> set (neutral scenario_palette)
      \<union> set (accents scenario_palette)"
    and c: "scenario_blue \<in> set (cool scenario_palette)"
    by (simp_all add: scenario_palette_def)
  from palette_quantized [of 1 True scenario_image 8] scenario_result
  have "\<forall>c\<in>set (all scenario_palette) \<union> set (warm scenario_palette)
      \<union> set (cool scenario_palette) \<union> set (neutral scenario_palette)
      \<union> set (accents scenario_palette).
      (\<forall>v\<in>{rgb_r (rgb c), rgb_g (rgb c), rgb_b (rgb c)}. 0 \<le> v \<and> v \<le> 252 \<and> 12 dvd v)
      \<and> hex c = rgbToHex (rgb c) \<and> hsl c = rgbToHsl (rgb c) \<and> hex c \<noteq> ''#ffffff''"
    by blast
  from bspec [OF this m] c scenario_result show ?thesis by blast
qed

end
